theory Spec2Isabelle
  imports Complex_Main "HOL-Library.AList"
begin

section \<open>JavaScript strings\<close>

text \<open>
  A JavaScript string is a sequence of UTF-16 code units. The embedding uses
  \<^typ>\<open>string\<close> and so covers the code units below 256; every character that the
  parser's patterns single out (brackets, separators, the backslash, the hash sign, the
  comma, digits, letters) lies in that range.
\<close>

abbreviation NL :: char where "NL \<equiv> CHR 0x0A"
abbreviation CR :: char where "CR \<equiv> CHR 0x0D"
abbreviation BSL :: char where "BSL \<equiv> CHR 0x5C"

text \<open>
  The class \<open>\s\<close> of a regular expression and the characters removed by
  \<open>String.prototype.trim\<close> coincide: tab, line feed, vertical tab, form feed,
  carriage return, space and no-break space (the remaining members are above 255).
\<close>

definition is_space :: "char \<Rightarrow> bool" where
  "is_space c = (c = CHR 0x09 \<or> c = NL \<or> c = CHR 0x0B \<or> c = CHR 0x0C \<or> c = CR
                 \<or> c = CHR 0x20 \<or> c = CHR 0xA0)"

text \<open>Line terminators: where \<open>.\<close> stops and where \<open>^\<close> and \<open>$\<close> hold under the \<open>m\<close> flag.\<close>

definition is_line_term :: "char \<Rightarrow> bool" where
  "is_line_term c = (c = NL \<or> c = CR)"

definition js_trim :: "string \<Rightarrow> string" where
  "js_trim s = rev (dropWhile is_space (rev (dropWhile is_space s)))"

text \<open>\<open>s.split(d)\<close> for a one-character separator: the empty string gives one empty piece.\<close>

fun js_split :: "char \<Rightarrow> string \<Rightarrow> string list" where
  "js_split d [] = [[]]"
| "js_split d (c # cs) =
     (if c = d then [] # js_split d cs
      else (case js_split d cs of [] \<Rightarrow> [[c]] | x # xs \<Rightarrow> (c # x) # xs))"

definition lower_char :: "char \<Rightarrow> char" where
  "lower_char c =
     (let n = (of_char c :: nat)
      in if (65 \<le> n \<and> n \<le> 90) \<or> (192 \<le> n \<and> n \<le> 222 \<and> n \<noteq> 215)
         then char_of (n + 32) else c)"

definition toLowerCase :: "string \<Rightarrow> string" where
  "toLowerCase s = map lower_char s"

fun strip_prefix :: "string \<Rightarrow> string \<Rightarrow> string option" where
  "strip_prefix [] s = Some s"
| "strip_prefix (p # ps) [] = None"
| "strip_prefix (p # ps) (c # cs) = (if p = c then strip_prefix ps cs else None)"

section \<open>Include extraction\<close>

text \<open>
  \<open>INCLUDE_PATTERN = /^\[include\s+(.+?)\]\s*$/gm\<close>, matched by backtracking the way
  the regular-expression engine does. Each function below is one piece of the pattern
  and returns the text left after the whole match.
\<close>

text \<open>\<open>$\<close> under the \<open>m\<close> flag: the end of the input, or a line terminator comes next.\<close>

definition at_eol :: "string \<Rightarrow> bool" where
  "at_eol r = (case r of [] \<Rightarrow> True | c # _ \<Rightarrow> is_line_term c)"

text \<open>
  \<open>\s*$\<close>: the greedy star has taken \<open>t\<close> characters of white space and gives them
  back one at a time until \<open>$\<close> holds.
\<close>

fun ws_then_eol :: "nat \<Rightarrow> string \<Rightarrow> string option" where
  "ws_then_eol 0 s = (if at_eol s then Some s else None)"
| "ws_then_eol (Suc t) s =
     (if at_eol (drop (Suc t) s) then Some (drop (Suc t) s) else ws_then_eol t s)"

definition include_tail :: "string \<Rightarrow> string option" where
  "include_tail s = ws_then_eol (length (takeWhile is_space s)) s"

text \<open>
  \<open>(.+?)\]\s*$\<close>: the lazy group holds \<open>acc\<close>; first the rest of the pattern is tried
  here, and only when that fails the group takes one more character (never a line
  terminator).
\<close>

fun dot_lazy :: "string \<Rightarrow> string \<Rightarrow> (string \<times> string) option" where
  "dot_lazy acc [] = None"
| "dot_lazy acc (c # cs) =
     (case (if c = CHR '']'' then include_tail cs else None) of
        Some r \<Rightarrow> Some (acc, r)
      | None \<Rightarrow> if is_line_term c then None else dot_lazy (acc @ [c]) cs)"

definition dot_start :: "string \<Rightarrow> (string \<times> string) option" where
  "dot_start s =
     (case s of [] \<Rightarrow> None
      | c # cs \<Rightarrow> if is_line_term c then None else dot_lazy [c] cs)"

text \<open>\<open>\s+\<close>: greedy, at least one character, giving back one at a time.\<close>

fun ws_greedy :: "nat \<Rightarrow> string \<Rightarrow> (string \<times> string) option" where
  "ws_greedy 0 s = None"
| "ws_greedy (Suc j) s =
     (case dot_start (drop (Suc j) s) of Some r \<Rightarrow> Some r | None \<Rightarrow> ws_greedy j s)"

text \<open>A match attempt at a position where \<open>^\<close> holds: the capture and the text after the match.\<close>

definition include_match_at :: "string \<Rightarrow> (string \<times> string) option" where
  "include_match_at s =
     (case strip_prefix ''[include'' s of
        None \<Rightarrow> None
      | Some r \<Rightarrow> ws_greedy (length (takeWhile is_space r)) r)"

lemma ws_then_eol_length: "ws_then_eol t s = Some r \<Longrightarrow> length r \<le> length s"
  by (induction t) (auto split: if_splits)

lemma dot_lazy_length: "dot_lazy acc s = Some (cap, r) \<Longrightarrow> length r < length s"
proof (induction s arbitrary: acc)
  case Nil
  then show ?case by simp
next
  case (Cons c cs)
  show ?case
  proof (cases "if c = CHR '']'' then include_tail cs else None")
    case None
    with Cons.prems have "dot_lazy (acc @ [c]) cs = Some (cap, r)"
      by (auto split: if_splits)
    from Cons.IH [OF this] show ?thesis by simp
  next
    case (Some r')
    with Cons.prems have "r' = r" by simp
    with Some have "include_tail cs = Some r" by (auto split: if_splits)
    then have "length r \<le> length cs"
      unfolding include_tail_def by (rule ws_then_eol_length)
    then show ?thesis by simp
  qed
qed

lemma dot_start_length: "dot_start s = Some (cap, r) \<Longrightarrow> length r < length s"
  unfolding dot_start_def
  by (cases s) (auto split: if_splits dest: dot_lazy_length)

lemma ws_greedy_length: "ws_greedy j s = Some (cap, r) \<Longrightarrow> length r < length s"
proof (induction j)
  case 0
  then show ?case by simp
next
  case (Suc j)
  show ?case
  proof (cases "dot_start (drop (Suc j) s)")
    case None
    with Suc show ?thesis by simp
  next
    case (Some p)
    with Suc.prems have "dot_start (drop (Suc j) s) = Some (cap, r)" by simp
    from dot_start_length [OF this] show ?thesis by simp
  qed
qed

lemma strip_prefix_length: "strip_prefix p s = Some r \<Longrightarrow> length r \<le> length s"
  by (induction p s rule: strip_prefix.induct) (auto split: if_splits)

lemma include_match_at_length:
  "include_match_at s = Some (cap, r) \<Longrightarrow> length r < length s"
  unfolding include_match_at_def
  by (auto split: option.splits dest!: strip_prefix_length ws_greedy_length)

text \<open>
  The scan of the whole text. \<open>exec\<close> in the loop of \<open>extractIncludes\<close> and the later
  \<open>replace\<close> walk through the same matches (both start from index 0 and resume at the
  end of the previous match), so one function returns both the captures and the text
  with the matches removed. \<open>bol\<close> says whether \<open>^\<close> holds at the current position.
\<close>

function include_scan :: "bool \<Rightarrow> string \<Rightarrow> string list \<times> string" where
  "include_scan bol [] = ([], [])"
| "include_scan bol (c # cs) =
     (case (if bol then include_match_at (c # cs) else None) of
        Some (cap, rest) \<Rightarrow>
          (let matched = take (length (c # cs) - length rest) (c # cs);
               (caps, cleaned) = include_scan (is_line_term (last matched)) rest
           in (cap # caps, cleaned))
      | None \<Rightarrow>
          (let (caps, cleaned) = include_scan (is_line_term c) cs
           in (caps, c # cleaned)))"
  by pat_completeness auto
termination
  by (relation "measure (\<lambda>(bol, s). length s)")
     (auto split: if_splits dest: include_match_at_length)

declare include_scan.simps [simp del]

definition extractIncludes :: "string \<Rightarrow> string \<times> string list" where
  "extractIncludes content =
     (let (caps, cleanedContent) = include_scan True content
      in (cleanedContent, filter (\<lambda>includeFile. includeFile \<noteq> []) (map js_trim caps)))"

section \<open>Numbers\<close>

text \<open>
  A JavaScript number is an IEEE 754 binary64 value. The embedding keeps the finite
  ones as the rational they denote (the sign of zero is not kept: \<open>-0\<close> and \<open>0\<close>
  compare equal and print alike) and has separate values for the infinities and NaN.
\<close>

datatype jsnum = NaN | PosInf | NegInf | Fin rat

definition pow2 :: "int \<Rightarrow> rat" where
  "pow2 e = (if 0 \<le> e then 2 ^ nat e else 1 / 2 ^ nat (- e))"

definition pow10 :: "int \<Rightarrow> rat" where
  "pow10 e = (if 0 \<le> e then 10 ^ nat e else 1 / 10 ^ nat (- e))"

function bit_length :: "int \<Rightarrow> int" where
  "bit_length n = (if n \<le> 0 then 0 else 1 + bit_length (n div 2))"
  by pat_completeness auto
termination
  by (relation "measure nat") auto

declare bit_length.simps [simp del]

text \<open>For \<open>0 < q\<close>: the exponent \<open>e\<close> with \<open>2 ^ e \<le> q < 2 ^ (e + 1)\<close>.\<close>

definition floor_log2 :: "rat \<Rightarrow> int" where
  "floor_log2 q =
     (let (a, b) = quotient_of q;
          k = bit_length a - bit_length b
      in if pow2 k \<le> q then k else k - 1)"

definition round_half_even :: "rat \<Rightarrow> int" where
  "round_half_even m =
     (let f = \<lfloor>m\<rfloor>; d = m - of_int f
      in if d < 1 / 2 then f else if 1 / 2 < d then f + 1
         else if even f then f else f + 1)"

text \<open>
  Rounding a real value to binary64, to nearest with ties to even: 53 significant
  bits, subnormals below \<open>2 ^ -1022\<close>, overflow to an infinity from \<open>2 ^ 1024\<close>.
\<close>

definition round_double :: "rat \<Rightarrow> jsnum" where
  "round_double q =
     (if q = 0 then Fin 0
      else let a = \<bar>q\<bar>;
               e = max (floor_log2 a) (- 1022);
               ulp = pow2 (e - 52);
               r = of_int (round_half_even (a / ulp)) * ulp
           in if pow2 1024 \<le> r then (if 0 < q then PosInf else NegInf)
              else Fin (if 0 < q then r else - r))"

definition is_digit :: "char \<Rightarrow> bool" where
  "is_digit c = (let n = (of_char c :: nat) in 48 \<le> n \<and> n \<le> 57)"

definition is_alpha :: "char \<Rightarrow> bool" where
  "is_alpha c = (let n = (of_char c :: nat) in (65 \<le> n \<and> n \<le> 90) \<or> (97 \<le> n \<and> n \<le> 122))"

text \<open>The value of a character as a digit of a base up to 16; 16 for any other character.\<close>

definition digit_value :: "char \<Rightarrow> int" where
  "digit_value c =
     (let n = (of_char c :: int)
      in if 48 \<le> n \<and> n \<le> 57 then n - 48
         else if 97 \<le> n \<and> n \<le> 102 then n - 87
         else if 65 \<le> n \<and> n \<le> 70 then n - 55
         else 16)"

definition digits_value :: "int \<Rightarrow> string \<Rightarrow> int" where
  "digits_value base ds = foldl (\<lambda>acc d. acc * base + digit_value d) 0 ds"

text \<open>
  \<open>Number(s)\<close> on a string is the StringToNumber operation of ECMAScript: the string is
  trimmed; the empty string is 0; otherwise it must be, as a whole, either an unsigned
  binary, octal or hexadecimal integer literal (\<open>0b\<close>, \<open>0o\<close>, \<open>0x\<close>) or a decimal
  literal with optional sign, fraction and exponent, or a signed \<open>Infinity\<close>; anything
  else is NaN.
\<close>

definition radix_literal :: "string \<Rightarrow> int option" where
  "radix_literal t =
     (case t of
        z # x # ds \<Rightarrow>
          (let base = (if x = CHR ''x'' \<or> x = CHR ''X'' then 16
                       else if x = CHR ''o'' \<or> x = CHR ''O'' then 8
                       else if x = CHR ''b'' \<or> x = CHR ''B'' then 2 else (0::int))
           in if z = CHR ''0'' \<and> base \<noteq> 0 \<and> ds \<noteq> [] \<and> list_all (\<lambda>d. digit_value d < base) ds
              then Some (digits_value base ds) else None)
      | _ \<Rightarrow> None)"

text \<open>The exponent part: absent, or \<open>e\<close>/\<open>E\<close>, an optional sign and at least one digit.\<close>

definition exponent_part :: "string \<Rightarrow> int option" where
  "exponent_part r =
     (case r of
        [] \<Rightarrow> Some 0
      | e # r1 \<Rightarrow>
          if e = CHR ''e'' \<or> e = CHR ''E'' then
            (let (neg, ds) = (case r1 of [] \<Rightarrow> (False, [])
                              | s # r2 \<Rightarrow> if s = CHR ''+'' then (False, r2)
                                         else if s = CHR ''-'' then (True, r2)
                                         else (False, r1))
             in if ds \<noteq> [] \<and> list_all is_digit ds
                then Some (if neg then - digits_value 10 ds else digits_value 10 ds)
                else None)
          else None)"

text \<open>
  A decimal literal: the sign, and the magnitude (\<open>None\<close> for \<open>Infinity\<close>). There must
  be a digit before or after the point.
\<close>

definition str_decimal :: "string \<Rightarrow> (bool \<times> rat option) option" where
  "str_decimal t =
     (let (neg, u) = (case t of [] \<Rightarrow> (False, [])
                      | s # r \<Rightarrow> if s = CHR ''+'' then (False, r)
                                 else if s = CHR ''-'' then (True, r)
                                 else (False, t))
      in if u = ''Infinity'' then Some (neg, None)
         else let ip = takeWhile is_digit u;
                  r1 = dropWhile is_digit u;
                  (fp, r2) = (case r1 of [] \<Rightarrow> ([], r1)
                              | p # r \<Rightarrow> if p = CHR ''.''
                                         then (takeWhile is_digit r, dropWhile is_digit r)
                                         else ([], r1))
              in if ip = [] \<and> fp = [] then None
                 else (case exponent_part r2 of
                         None \<Rightarrow> None
                       | Some ex \<Rightarrow>
                           Some (neg, Some (of_int (digits_value 10 (ip @ fp))
                                            * pow10 (ex - int (length fp))))))"

definition js_Number :: "string \<Rightarrow> jsnum" where
  "js_Number s =
     (let t = js_trim s
      in if t = [] then Fin 0
         else (case radix_literal t of
                 Some n \<Rightarrow> round_double (of_int n)
               | None \<Rightarrow>
                   (case str_decimal t of
                      None \<Rightarrow> NaN
                    | Some (neg, None) \<Rightarrow> if neg then NegInf else PosInf
                    | Some (neg, Some m) \<Rightarrow> round_double (if neg then - m else m))))"

section \<open>Values and objects\<close>

text \<open>What \<open>parseValue\<close> returns: a boolean, a number, a string, or an array of those.\<close>

datatype jsvalue = VBool bool | VNum rat | VStr string | VList "jsvalue list"

text \<open>
  A plain object is the list of its own enumerable properties in the order
  \<open>Object.entries\<close> and the spread \<open>{ ...obj }\<close> enumerate them: first the keys that
  are array indices (canonical decimal numerals below \<open>2 ^ 32 - 1\<close>) in ascending
  numeric order, then the other keys in the order of their creation.
\<close>

type_synonym 'a js_object = "(string \<times> 'a) list"

type_synonym ConfigSection = "jsvalue js_object"
type_synonym KlipperConfig = "ConfigSection js_object"

definition is_array_index :: "string \<Rightarrow> bool" where
  "is_array_index k =
     (k \<noteq> [] \<and> list_all is_digit k \<and> (hd k \<noteq> CHR ''0'' \<or> k = ''0'')
      \<and> digits_value 10 k < 4294967295)"

fun insert_index :: "string \<Rightarrow> 'a \<Rightarrow> 'a js_object \<Rightarrow> 'a js_object" where
  "insert_index k v [] = [(k, v)]"
| "insert_index k v ((k', v') # ps) =
     (if is_array_index k' \<and> digits_value 10 k' < digits_value 10 k
      then (k', v') # insert_index k v ps
      else (k, v) # (k', v') # ps)"

text \<open>
  The assignment \<open>obj[k] = v\<close> on a plain object. An existing property keeps its place
  and takes the new value; a new one is created at the place its key has in the
  enumeration order. The key \<open>__proto__\<close> is the accessor inherited from
  \<open>Object.prototype\<close>: assigning to it creates no own property.
\<close>

definition js_set :: "'a js_object \<Rightarrow> string \<Rightarrow> 'a \<Rightarrow> 'a js_object" where
  "js_set obj k v =
     (if k = ''__proto__'' then obj
      else if map_of obj k \<noteq> None then AList.update k v obj
      else if is_array_index k then insert_index k v obj
      else obj @ [(k, v)])"

section \<open>Value inference\<close>

lemma js_split_not_Nil: "js_split d s \<noteq> []"
  by (induction s) (auto split: list.splits)

lemma js_split_le: "y \<in> set (js_split d s) \<Longrightarrow> length y \<le> length s"
proof (induction s arbitrary: y)
  case Nil
  then show ?case by simp
next
  case (Cons c cs)
  show ?case
  proof (cases "js_split d cs")
    case Nil
    with js_split_not_Nil show ?thesis by blast
  next
    case (Cons x xs)
    have "length x \<le> length cs" using Cons.IH Cons by simp
    moreover have "\<And>z. z \<in> set xs \<Longrightarrow> length z \<le> length cs" using Cons.IH Cons by simp
    ultimately show ?thesis
      using Cons.prems Cons by (auto split: if_splits simp: le_SucI)
  qed
qed

lemma js_split_shorter:
  "d \<in> set s \<Longrightarrow> x \<in> set (js_split d s) \<Longrightarrow> length x < length s"
proof (induction s arbitrary: x)
  case Nil
  then show ?case by simp
next
  case (Cons c cs)
  show ?case
  proof (cases "c = d")
    case True
    with Cons.prems(2) js_split_le [of _ d cs] show ?thesis
      by (auto simp: le_imp_less_Suc)
  next
    case False
    with Cons.prems(1) have "d \<in> set cs" by simp
    with Cons.IH have lt: "\<And>y. y \<in> set (js_split d cs) \<Longrightarrow> length y < length cs" by blast
    show ?thesis
    proof (cases "js_split d cs")
      case Nil
      with js_split_not_Nil show ?thesis by blast
    next
      case (Cons a list)
      have "length a < length cs" using lt Cons by simp
      moreover have "\<And>z. z \<in> set list \<Longrightarrow> length z < length cs" using lt Cons by simp
      ultimately show ?thesis
        using False Cons.prems(2) Cons by (auto simp: less_SucI)
    qed
  qed
qed

lemma js_trim_length: "length (js_trim s) \<le> length s"
proof -
  have "length (dropWhile is_space (rev (dropWhile is_space s))) \<le> length (rev (dropWhile is_space s))"
    by (rule length_dropWhile_le)
  also have "\<dots> \<le> length s" by (simp add: length_dropWhile_le)
  finally show ?thesis by (simp add: js_trim_def)
qed

function parseValue :: "string \<Rightarrow> jsvalue" where
  "parseValue value =
     (if value = [] then VStr []
      else let lowercaseValue = toLowerCase value
           in if lowercaseValue = ''true'' then VBool True
              else if lowercaseValue = ''false'' then VBool False
              else (case js_Number value of
                      Fin numberValue \<Rightarrow> VNum numberValue
                    | _ \<Rightarrow>
                        if CHR '','' \<in> set value
                        then VList (map (\<lambda>v. parseValue (js_trim v)) (js_split (CHR '','') value))
                        else VStr value))"
  by pat_completeness auto
termination
proof (relation "measure length", goal_cases)
  case 1
  show ?case by simp
next
  case (2 "value" lc x)
  then show ?case
    using js_split_shorter [of "CHR '',''" "value" x] js_trim_length [of x] by simp
next
  case (3 "value" lc x)
  then show ?case
    using js_split_shorter [of "CHR '',''" "value" x] js_trim_length [of x] by simp
next
  case (4 "value" lc x)
  then show ?case
    using js_split_shorter [of "CHR '',''" "value" x] js_trim_length [of x] by simp
qed

declare parseValue.simps [simp del]

section \<open>Validation\<close>

fun is_prefix :: "string \<Rightarrow> string \<Rightarrow> bool" where
  "is_prefix [] s = True"
| "is_prefix (p # ps) [] = False"
| "is_prefix (p # ps) (c # cs) = (p = c \<and> is_prefix ps cs)"

definition validPrefixes :: "string list" where
  "validPrefixes =
     [''stepper_'', ''extruder'', ''heater_'', ''fan'', ''output_pin'', ''gcode_macro'',
      ''temperature_sensor'', ''filament_switch_sensor'', ''bed_mesh'', ''safe_z_home'',
      ''z_tilt'', ''quad_gantry_level'', ''screws_tilt_adjust'', ''bed_screws'',
      ''display'', ''menu'', ''delayed_gcode'', ''save_variables'', ''idle_timeout'',
      ''respond'', ''pause_resume'', ''firmware_retraction'', ''gcode_arcs'',
      ''exclude_object'', ''virtual_sdcard'', ''duplicate_pin_override'']"

definition isValidMultiWordSection :: "string \<Rightarrow> bool" where
  "isValidMultiWordSection sectionName =
     list_ex (\<lambda>prefix. is_prefix prefix sectionName) validPrefixes"

definition validateSectionName :: "string \<Rightarrow> string option" where
  "validateSectionName sectionName =
     (if sectionName = [] \<or> js_trim sectionName = [] then Some ''Empty section name''
      else if CHR '' '' \<in> set sectionName \<and> \<not> isValidMultiWordSection sectionName
           then Some (''Invalid section name: \"'' @ sectionName @ ''\"'')
      else None)"

text \<open>\<open>/^!?[A-Za-z]+\d+$/\<close>: an optional \<open>!\<close>, letters, then digits up to the end.\<close>

definition pin_match :: "string \<Rightarrow> bool" where
  "pin_match v =
     (let r = (case v of [] \<Rightarrow> v | c # cs \<Rightarrow> if c = CHR ''!'' then cs else v);
          letters = takeWhile is_alpha r;
          digits = dropWhile is_alpha r
      in letters \<noteq> [] \<and> digits \<noteq> [] \<and> list_all is_digit digits)"

text \<open>The comparisons of \<open>validateParameter\<close>; each of them is false on NaN.\<close>

definition num_le0 :: "jsnum \<Rightarrow> bool" where
  "num_le0 n = (case n of Fin q \<Rightarrow> q \<le> 0 | NegInf \<Rightarrow> True | _ \<Rightarrow> False)"

definition num_lt0 :: "jsnum \<Rightarrow> bool" where
  "num_lt0 n = (case n of Fin q \<Rightarrow> q < 0 | NegInf \<Rightarrow> True | _ \<Rightarrow> False)"

definition num_gt500 :: "jsnum \<Rightarrow> bool" where
  "num_gt500 n = (case n of Fin q \<Rightarrow> 500 < q | PosInf \<Rightarrow> True | _ \<Rightarrow> False)"

definition validateParameter :: "string \<Rightarrow> string \<Rightarrow> string \<Rightarrow> string option" where
  "validateParameter section key value =
     (let r1 =
        (if section = ''stepper_x'' \<or> section = ''stepper_y'' \<or> section = ''stepper_z'' then
           (if (key = ''step_pin'' \<or> key = ''dir_pin'' \<or> key = ''enable_pin'') \<and> \<not> pin_match value
            then Some (''Invalid pin format for '' @ key @ '': '' @ value)
            else if key = ''rotation_distance''
                    \<and> (js_Number value = NaN \<or> num_le0 (js_Number value))
            then Some (''Invalid rotation_distance: must be positive number, got '' @ value)
            else None)
         else None)
      in case r1 of
           Some e \<Rightarrow> Some e
         | None \<Rightarrow>
            (if section = ''extruder'' then
               (if key = ''nozzle_diameter''
                   \<and> (js_Number value = NaN \<or> num_le0 (js_Number value))
                then Some (''Invalid nozzle_diameter: must be positive number, got '' @ value)
                else if key = ''max_temp''
                        \<and> (js_Number value = NaN \<or> num_lt0 (js_Number value)
                            \<or> num_gt500 (js_Number value))
                then Some (''Invalid max_temp: must be between 0-500, got '' @ value)
                else None)
             else None))"

section \<open>The section and parameter scanner\<close>

text \<open>\<open>COMMENT_PATTERN = /^\s*#/\<close>.\<close>

definition comment_test :: "string \<Rightarrow> bool" where
  "comment_test line = (case dropWhile is_space line of [] \<Rightarrow> False | c # _ \<Rightarrow> c = CHR ''#'')"

text \<open>
  \<open>CONTINUATION_PATTERN = /\\\s*$/\<close> (no flags, so \<open>$\<close> is the end of the string):
  the last character that is not white space is a backslash. The result is the line
  with the match replaced by the empty string.
\<close>

definition continuation_strip :: "string \<Rightarrow> string option" where
  "continuation_strip line =
     (case dropWhile is_space (rev line) of
        [] \<Rightarrow> None
      | c # pre \<Rightarrow> if c = BSL then Some (rev pre) else None)"

text \<open>\<open>/^\[([^\]]+)\]\s*$/\<close>: the content of the brackets.\<close>

definition section_match :: "string \<Rightarrow> string option" where
  "section_match line =
     (case line of
        [] \<Rightarrow> None
      | b # r \<Rightarrow>
          (let name = takeWhile (\<lambda>c. c \<noteq> CHR '']'') r;
               rest = dropWhile (\<lambda>c. c \<noteq> CHR '']'') r
           in if b = CHR ''['' \<and> name \<noteq> [] \<and> rest \<noteq> [] \<and> list_all is_space (tl rest)
              then Some name else None))"

text \<open>
  \<open>/^([^:=]+)[:=]\s*(.*)$/\<close>: the key is what stands before the first separator, the
  value what follows the white space after it. \<open>.\<close> matches no line terminator and
  \<open>$\<close> is the end of the string, so a carriage return inside the value or after it
  makes the match fail.
\<close>

definition is_sep :: "char \<Rightarrow> bool" where
  "is_sep c = (c = CHR '':'' \<or> c = CHR ''='')"

definition kv_match :: "string \<Rightarrow> (string \<times> string) option" where
  "kv_match line =
     (let key = takeWhile (\<lambda>c. \<not> is_sep c) line;
          rest = dropWhile (\<lambda>c. \<not> is_sep c) line
      in if key \<noteq> [] \<and> rest \<noteq> [] then
           (let v = dropWhile is_space (tl rest)
            in if list_ex is_line_term v then None else Some (key, v))
         else None)"

function show_nat :: "nat \<Rightarrow> string" where
  "show_nat n =
     (if n < 10 then [char_of (48 + n)]
      else show_nat (n div 10) @ [char_of (48 + n mod 10)])"
  by pat_completeness auto
termination
  by (relation "measure id") auto

declare show_nat.simps [simp del]

text \<open>The local variables of the loop in \<open>parseKlipperConfig\<close>.\<close>

record scan_state =
  cfg :: KlipperConfig
  currentSection :: "string option"
  currentSectionData :: ConfigSection
  errs :: "string list"

definition push_error :: "nat \<Rightarrow> string \<Rightarrow> scan_state \<Rightarrow> scan_state" where
  "push_error lineNumber msg st =
     st\<lparr>errs := errs st @ [''Line '' @ show_nat lineNumber @ '': '' @ msg]\<rparr>"

text \<open>The test \<open>if (currentSection)\<close>: \<open>null\<close> and the empty string are falsy.\<close>

definition open_section :: "string option \<Rightarrow> string option" where
  "open_section cs = (case cs of None \<Rightarrow> None | Some s \<Rightarrow> if s = [] then None else Some s)"

text \<open>\<open>config[currentSection] = { ...currentSectionData }\<close> when a section is open.\<close>

definition commit :: "scan_state \<Rightarrow> scan_state" where
  "commit st =
     (case open_section (currentSection st) of
        None \<Rightarrow> st
      | Some cur \<Rightarrow> st\<lparr>cfg := js_set (cfg st) cur (currentSectionData st)\<rparr>)"

text \<open>The body of the loop from the section match on, for the logical line \<open>line\<close>.\<close>

definition process_line :: "bool \<Rightarrow> nat \<Rightarrow> scan_state \<Rightarrow> string \<Rightarrow> scan_state" where
  "process_line validateSyntax lineNumber st line =
     (case section_match line of
        Some name \<Rightarrow>
          (let st1 = (commit st)\<lparr>currentSection :=
                                    (if js_trim name = [] then None else Some (js_trim name)),
                                  currentSectionData := []\<rparr>
           in case open_section (currentSection st1) of
                None \<Rightarrow> st1
              | Some sec \<Rightarrow>
                  if validateSyntax then
                    (case validateSectionName sec of
                       Some validationError \<Rightarrow> push_error lineNumber validationError st1
                     | None \<Rightarrow> st1)
                  else st1)
      | None \<Rightarrow>
          (case open_section (currentSection st) of
             None \<Rightarrow>
               if validateSyntax \<and> js_trim line \<noteq> []
               then push_error lineNumber (''Configuration outside of section: '' @ js_trim line) st
               else st
           | Some cur \<Rightarrow>
               (case kv_match line of
                  Some (k, v) \<Rightarrow>
                    (let key = js_trim k; value = js_trim v
                     in if key \<noteq> [] then
                          (let st1 = st\<lparr>currentSectionData :=
                                          js_set (currentSectionData st) key (parseValue value)\<rparr>
                           in if validateSyntax then
                                (case validateParameter cur key value of
                                   Some paramError \<Rightarrow> push_error lineNumber paramError st1
                                 | None \<Rightarrow> st1)
                              else st1)
                        else if validateSyntax
                             then push_error lineNumber (''Invalid key-value pair: '' @ js_trim line) st
                             else st)
                | None \<Rightarrow>
                    if validateSyntax \<and> js_trim line \<noteq> []
                    then push_error lineNumber (''Invalid syntax: '' @ js_trim line) st
                    else st)))"

text \<open>
  The loop over \<open>lines\<close>. \<open>n\<close> is \<open>lineNumber\<close> before the increment, the list holds
  the lines not yet visited, so \<open>lineNumber < lines.length\<close> says that a next line
  exists and \<open>lines[lineNumber]\<close> is that line. The assignment \<open>lines[lineNumber] = ''\<close>
  is seen by the iteration, which visits the blanked line and skips it.
\<close>

fun scan_lines :: "bool \<Rightarrow> nat \<Rightarrow> scan_state \<Rightarrow> string list \<Rightarrow> scan_state" where
  "scan_lines validateSyntax n st [] = st"
| "scan_lines validateSyntax n st [rawLine] =
     (if comment_test rawLine \<or> js_trim rawLine = [] then st
      else process_line validateSyntax (Suc n) st rawLine)"
| "scan_lines validateSyntax n st (rawLine # next # rest) =
     (if comment_test rawLine \<or> js_trim rawLine = []
      then scan_lines validateSyntax (Suc n) st (next # rest)
      else (case continuation_strip rawLine of
              Some stripped \<Rightarrow>
                scan_lines validateSyntax (Suc n)
                  (process_line validateSyntax (Suc n) st (stripped @ '' '' @ js_trim next))
                  ([] # rest)
            | None \<Rightarrow>
                scan_lines validateSyntax (Suc n)
                  (process_line validateSyntax (Suc n) st rawLine) (next # rest)))"

definition parseKlipperConfig :: "string \<Rightarrow> bool \<Rightarrow> string list \<Rightarrow> KlipperConfig \<times> string list" where
  "parseKlipperConfig content validateSyntax errors0 =
     (let st = scan_lines validateSyntax 0
                 \<lparr>cfg = [], currentSection = None, currentSectionData = [], errs = errors0\<rparr>
                 (js_split NL content)
      in (cfg (commit st), errs st))"

record ConfigParseResult =
  config :: KlipperConfig
  "includes" :: "string list"
  errors :: "string list"

text \<open>
  \<open>parseConfig\<close>. Nothing in the \<open>try\<close> block throws (pattern matching, string
  operations, \<open>Number\<close> and property assignment on plain objects do not), so the
  \<open>catch\<close> branch has no counterpart here.
\<close>

definition parseConfig :: "string \<Rightarrow> bool \<Rightarrow> ConfigParseResult" where
  "parseConfig content validateSyntax =
     (let (cleanedContent, extractedIncludes) = extractIncludes content;
          (c, es) = parseKlipperConfig cleanedContent validateSyntax []
      in \<lparr>config = c, includes = extractedIncludes, errors = es\<rparr>)"

section \<open>Serialization\<close>

fun js_join :: "string \<Rightarrow> string list \<Rightarrow> string" where
  "js_join sep [] = []"
| "js_join sep [x] = x"
| "js_join sep (x # y # ys) = x @ sep @ js_join sep (y # ys)"

text \<open>
  The conversion of a value to a string in a template literal and in \<open>Array.join\<close>.
  \<open>numberToString\<close> stands for the conversion of a number (the shortest decimal text
  that reads back as the same binary64 value), which is part of the language and is
  taken as a parameter.
\<close>

fun js_to_string :: "(rat \<Rightarrow> string) \<Rightarrow> jsvalue \<Rightarrow> string" where
  "js_to_string numberToString (VBool b) = (if b then ''true'' else ''false'')"
| "js_to_string numberToString (VNum q) = numberToString q"
| "js_to_string numberToString (VStr s) = s"
| "js_to_string numberToString (VList xs) = js_join '','' (map (js_to_string numberToString) xs)"

definition format_entry :: "(rat \<Rightarrow> string) \<Rightarrow> string \<times> jsvalue \<Rightarrow> string" where
  "format_entry numberToString e =
     (case e of
        (key, VList xs) \<Rightarrow> key @ '': '' @ js_join '', '' (map (js_to_string numberToString) xs) @ [NL]
      | (key, value) \<Rightarrow> key @ '': '' @ js_to_string numberToString value @ [NL])"

definition format_section :: "(rat \<Rightarrow> string) \<Rightarrow> string \<times> ConfigSection \<Rightarrow> string" where
  "format_section numberToString e =
     (case e of (sectionName, section) \<Rightarrow>
        ''['' @ sectionName @ '']'' @ [NL] @ concat (map (format_entry numberToString) section) @ [NL])"

definition formatConfig :: "(rat \<Rightarrow> string) \<Rightarrow> KlipperConfig \<Rightarrow> string list \<Rightarrow> string" where
  "formatConfig numberToString config0 includes0 =
     js_trim (concat (map (\<lambda>include. ''[include '' @ include @ '']'' @ [NL]) includes0)
              @ (if includes0 \<noteq> [] then [NL] else [])
              @ concat (map (format_section numberToString) config0))"

section \<open>The scanner as a fold over logical lines\<close>

text \<open>
  What a key/value line does to the data of the open section, whatever the validation
  flag: the value is stored under the trimmed key when that key is not empty.
\<close>

definition store_kv :: "ConfigSection \<Rightarrow> string \<Rightarrow> ConfigSection" where
  "store_kv d line =
     (case kv_match line of
        None \<Rightarrow> d
      | Some (k, v) \<Rightarrow> if js_trim k = [] then d else js_set d (js_trim k) (parseValue (js_trim v)))"

lemma push_error_sel [simp]:
  "cfg (push_error n m st) = cfg st"
  "currentSection (push_error n m st) = currentSection st"
  "currentSectionData (push_error n m st) = currentSectionData st"
  by (simp_all add: push_error_def)

lemma commit_sel [simp]:
  "currentSection (commit st) = currentSection st"
  "currentSectionData (commit st) = currentSectionData st"
  "errs (commit st) = errs st"
  by (simp_all add: commit_def split: option.splits)

lemma process_line_header:
  "section_match l = Some nm \<Longrightarrow>
   process_line v n st l =
     (let st1 = (commit st)\<lparr>currentSection := (if js_trim nm = [] then None else Some (js_trim nm)),
                            currentSectionData := []\<rparr>
      in case open_section (currentSection st1) of
           None \<Rightarrow> st1
         | Some sec \<Rightarrow>
             if v then (case validateSectionName sec of
                          Some e \<Rightarrow> push_error n e st1
                        | None \<Rightarrow> st1)
             else st1)"
  by (simp add: process_line_def)

lemma process_line_outside:
  "section_match l = None \<Longrightarrow> open_section (currentSection st) = None \<Longrightarrow>
   process_line v n st l =
     (if v \<and> js_trim l \<noteq> []
      then push_error n (''Configuration outside of section: '' @ js_trim l) st else st)"
  by (simp add: process_line_def)

lemma process_line_inside:
  "section_match l = None \<Longrightarrow> open_section (currentSection st) = Some cur \<Longrightarrow>
   process_line v n st l =
     (case kv_match l of
        Some (k, x) \<Rightarrow>
          if js_trim k \<noteq> [] then
            (let st1 = st\<lparr>currentSectionData :=
                            js_set (currentSectionData st) (js_trim k) (parseValue (js_trim x))\<rparr>
             in if v then (case validateParameter cur (js_trim k) (js_trim x) of
                             Some e \<Rightarrow> push_error n e st1
                           | None \<Rightarrow> st1)
                else st1)
          else if v then push_error n (''Invalid key-value pair: '' @ js_trim l) st else st
      | None \<Rightarrow>
          if v \<and> js_trim l \<noteq> [] then push_error n (''Invalid syntax: '' @ js_trim l) st else st)"
  by (cases "kv_match l") (auto simp: process_line_def Let_def)

lemma cfg_process_line:
  "cfg (process_line v n st l) =
     (case section_match l of Some nm \<Rightarrow> cfg (commit st) | None \<Rightarrow> cfg st)"
proof (cases "section_match l")
  case (Some nm)
  then show ?thesis
    by (simp add: process_line_header Let_def split: option.splits)
next
  case None
  show ?thesis
  proof (cases "open_section (currentSection st)")
    case None
    with \<open>section_match l = None\<close> show ?thesis by (simp add: process_line_outside)
  next
    case (Some cur)
    with \<open>section_match l = None\<close> show ?thesis
      by (simp add: process_line_inside Let_def split: option.splits)
  qed
qed

lemma currentSection_process_line:
  "currentSection (process_line v n st l) =
     (case section_match l of
        Some nm \<Rightarrow> if js_trim nm = [] then None else Some (js_trim nm)
      | None \<Rightarrow> currentSection st)"
proof (cases "section_match l")
  case (Some nm)
  then show ?thesis
    by (simp add: process_line_header Let_def split: option.splits)
next
  case None
  show ?thesis
  proof (cases "open_section (currentSection st)")
    case None
    with \<open>section_match l = None\<close> show ?thesis by (simp add: process_line_outside)
  next
    case (Some cur)
    with \<open>section_match l = None\<close> show ?thesis
      by (simp add: process_line_inside Let_def split: option.splits)
  qed
qed

lemma currentSectionData_process_line:
  "currentSectionData (process_line v n st l) =
     (case section_match l of
        Some nm \<Rightarrow> []
      | None \<Rightarrow> (case open_section (currentSection st) of
                   None \<Rightarrow> currentSectionData st
                 | Some cur \<Rightarrow> store_kv (currentSectionData st) l))"
proof (cases "section_match l")
  case (Some nm)
  then show ?thesis
    by (simp add: process_line_header Let_def split: option.splits)
next
  case None
  show ?thesis
  proof (cases "open_section (currentSection st)")
    case None
    with \<open>section_match l = None\<close> show ?thesis by (simp add: process_line_outside)
  next
    case (Some cur)
    with \<open>section_match l = None\<close> show ?thesis
      by (simp add: process_line_inside store_kv_def Let_def split: option.splits)
  qed
qed

lemma errs_process_line_False: "errs (process_line False n st l) = errs st"
proof (cases "section_match l")
  case (Some nm)
  then show ?thesis
    by (simp add: process_line_header Let_def split: option.splits)
next
  case None
  show ?thesis
  proof (cases "open_section (currentSection st)")
    case None
    with \<open>section_match l = None\<close> show ?thesis by (simp add: process_line_outside)
  next
    case (Some cur)
    with \<open>section_match l = None\<close> show ?thesis
      by (simp add: process_line_inside Let_def split: option.splits)
  qed
qed


text \<open>
  The logical lines of a list of physical lines, each with the line number the loop has
  when it reaches it: comments and blank lines are dropped, and a line that ends in a
  backslash is joined with the line after it, which is then left blank.
\<close>

fun logical_lines :: "nat \<Rightarrow> string list \<Rightarrow> (nat \<times> string) list" where
  "logical_lines n [] = []"
| "logical_lines n [rawLine] =
     (if comment_test rawLine \<or> js_trim rawLine = [] then [] else [(Suc n, rawLine)])"
| "logical_lines n (rawLine # next # rest) =
     (if comment_test rawLine \<or> js_trim rawLine = [] then logical_lines (Suc n) (next # rest)
      else (case continuation_strip rawLine of
              Some stripped \<Rightarrow>
                (Suc n, stripped @ '' '' @ js_trim next) # logical_lines (Suc n) ([] # rest)
            | None \<Rightarrow> (Suc n, rawLine) # logical_lines (Suc n) (next # rest)))"

definition run_lines :: "bool \<Rightarrow> scan_state \<Rightarrow> (nat \<times> string) list \<Rightarrow> scan_state" where
  "run_lines v st ls = foldl (\<lambda>s p. process_line v (fst p) s (snd p)) st ls"

lemma run_lines_Nil [simp]: "run_lines v st [] = st"
  by (simp add: run_lines_def)

lemma run_lines_Cons [simp]:
  "run_lines v st ((m, l) # ls) = run_lines v (process_line v m st l) ls"
  by (simp add: run_lines_def)

lemma run_lines_append: "run_lines v st (xs @ ys) = run_lines v (run_lines v st xs) ys"
  by (simp add: run_lines_def)

lemma scan_lines_run: "scan_lines v n st ls = run_lines v st (logical_lines n ls)"
  by (induction v n st ls rule: scan_lines.induct) (auto split: option.splits)

lemma cfg_commit:
  "cfg (commit st) =
     (case open_section (currentSection st) of
        None \<Rightarrow> cfg st
      | Some cur \<Rightarrow> js_set (cfg st) cur (currentSectionData st))"
  by (simp add: commit_def split: option.splits)

lemma run_lines_core:
  "cfg st = cfg st' \<Longrightarrow> currentSection st = currentSection st' \<Longrightarrow>
   currentSectionData st = currentSectionData st' \<Longrightarrow>
   cfg (run_lines v st ls) = cfg (run_lines v' st' ls)
   \<and> currentSection (run_lines v st ls) = currentSection (run_lines v' st' ls)
   \<and> currentSectionData (run_lines v st ls) = currentSectionData (run_lines v' st' ls)"
proof (induction ls arbitrary: st st')
  case Nil
  then show ?case by simp
next
  case (Cons p ls)
  obtain m l where p: "p = (m, l)" by (cases p)
  have "cfg (process_line v m st l) = cfg (process_line v' m st' l)"
    using Cons.prems by (simp add: cfg_process_line cfg_commit split: option.splits)
  moreover have "currentSection (process_line v m st l) = currentSection (process_line v' m st' l)"
    using Cons.prems by (simp add: currentSection_process_line split: option.splits)
  moreover have "currentSectionData (process_line v m st l) = currentSectionData (process_line v' m st' l)"
    using Cons.prems by (simp add: currentSectionData_process_line split: option.splits)
  ultimately show ?case
    unfolding p run_lines_Cons by (rule Cons.IH)
qed

lemma errs_run_lines_False: "errs (run_lines False st ls) = errs st"
proof (induction ls arbitrary: st)
  case Nil
  then show ?case by simp
next
  case (Cons p ls)
  then show ?case by (cases p) (simp add: errs_process_line_False)
qed

section \<open>The validation flag\<close>

text \<open>
  Claim C2. For every input, \<open>parseConfig\<close> with validation enabled and with validation
  disabled return the same document and the same include list; with validation disabled
  the list of diagnostics is empty.
\<close>

theorem validation_flag_noninterference:
  "config (parseConfig content True) = config (parseConfig content False)
   \<and> includes (parseConfig content True) = includes (parseConfig content False)
   \<and> errors (parseConfig content False) = []"
proof -
  obtain cleaned incs where ex: "extractIncludes content = (cleaned, incs)"
    by (cases "extractIncludes content")
  let ?st0 = "\<lparr>cfg = [], currentSection = None, currentSectionData = [], errs = []\<rparr>"
  let ?ls = "logical_lines 0 (js_split NL cleaned)"
  have core: "cfg (run_lines True ?st0 ?ls) = cfg (run_lines False ?st0 ?ls)
    \<and> currentSection (run_lines True ?st0 ?ls) = currentSection (run_lines False ?st0 ?ls)
    \<and> currentSectionData (run_lines True ?st0 ?ls) = currentSectionData (run_lines False ?st0 ?ls)"
    by (rule run_lines_core) simp_all
  then have "cfg (commit (run_lines True ?st0 ?ls)) = cfg (commit (run_lines False ?st0 ?ls))"
    by (simp add: cfg_commit split: option.splits)
  moreover have "errs (run_lines False ?st0 ?ls) = []"
    by (simp add: errs_run_lines_False)
  ultimately show ?thesis
    by (simp add: parseConfig_def parseKlipperConfig_def ex scan_lines_run Let_def)
qed

section \<open>Property assignment\<close>

lemma map_of_insert_index:
  "map_of obj k = None \<Longrightarrow> map_of (insert_index k v obj) = (map_of obj)(k \<mapsto> v)"
proof (induction obj)
  case Nil
  then show ?case by simp
next
  case (Cons p ps)
  obtain k' v' where p: "p = (k', v')" by (cases p)
  from Cons.prems p have ne: "k' \<noteq> k" and none: "map_of ps k = None"
    by (auto split: if_splits)
  show ?case
    using Cons.IH [OF none] ne by (auto simp: p fun_upd_twist)
qed

lemma map_of_js_set:
  "map_of (js_set obj k v) = (if k = ''__proto__'' then map_of obj else (map_of obj)(k \<mapsto> v))"
proof -
  have "map_of (obj @ [(k, v)]) = (map_of obj)(k \<mapsto> v)" if "map_of obj k = None"
  proof
    fix x
    show "map_of (obj @ [(k, v)]) x = ((map_of obj)(k \<mapsto> v)) x"
      using that by (cases "map_of obj x") (auto simp: map_add_def)
  qed
  then show ?thesis
    by (auto simp: js_set_def update_conv' map_of_insert_index)
qed

lemma keys_js_set: "fst ` set (js_set obj k v) \<subseteq> insert k (fst ` set obj)"
proof -
  have "fst ` set (js_set obj k v) = dom (map_of (js_set obj k v))"
    by (simp add: dom_map_of_conv_image_fst)
  also have "\<dots> \<subseteq> insert k (dom (map_of obj))"
    by (auto simp: map_of_js_set split: if_splits)
  finally show ?thesis by (simp add: dom_map_of_conv_image_fst)
qed

lemma open_section_not_empty: "open_section cs \<noteq> Some []"
  by (simp add: open_section_def split: option.splits)

lemma commit_no_empty_key:
  assumes "[] \<notin> fst ` set (cfg st)"
  shows "[] \<notin> fst ` set (cfg (commit st))"
proof (cases "open_section (currentSection st)")
  case None
  with assms show ?thesis by (simp add: cfg_commit)
next
  case (Some cur)
  then have "cur \<noteq> []" using open_section_not_empty [of "currentSection st"] by auto
  with assms keys_js_set [of "cfg st" cur "currentSectionData st"] Some show ?thesis
    by (auto simp: cfg_commit)
qed

lemma run_lines_no_empty_key:
  "[] \<notin> fst ` set (cfg st) \<Longrightarrow> [] \<notin> fst ` set (cfg (run_lines v st ls))"
proof (induction ls arbitrary: st)
  case Nil
  then show ?case by simp
next
  case (Cons p ls)
  obtain m l where p: "p = (m, l)" by (cases p)
  have "[] \<notin> fst ` set (cfg (process_line v m st l))"
    using Cons.prems commit_no_empty_key [OF Cons.prems]
    by (simp add: cfg_process_line split: option.splits)
  then show ?case unfolding p run_lines_Cons by (rule Cons.IH)
qed

section \<open>No section without a name\<close>

text \<open>
  Claim C9. For every input and either value of the validation flag, the document
  returned by \<open>parseConfig\<close> has no section keyed by the empty string; in particular a
  header whose bracket content is only white space leaves no section open and so
  commits nothing.
\<close>

theorem no_empty_section_name:
  "[] \<notin> fst ` set (config (parseConfig content validateSyntax))
   \<and> (section_match line = Some name \<and> js_trim name = []
        \<longrightarrow> open_section (currentSection (process_line validateSyntax n st line)) = None)"
proof -
  obtain cleaned incs where ex: "extractIncludes content = (cleaned, incs)"
    by (cases "extractIncludes content")
  let ?st0 = "\<lparr>cfg = [], currentSection = None, currentSectionData = [], errs = []\<rparr>"
  have "[] \<notin> fst ` set (cfg (run_lines validateSyntax ?st0 (logical_lines 0 (js_split NL cleaned))))"
    by (rule run_lines_no_empty_key) simp
  then have "[] \<notin> fst ` set (cfg (commit (run_lines validateSyntax ?st0 (logical_lines 0 (js_split NL cleaned)))))"
    by (rule commit_no_empty_key)
  then have "[] \<notin> fst ` set (config (parseConfig content validateSyntax))"
    by (simp add: parseConfig_def parseKlipperConfig_def ex scan_lines_run Let_def)
  moreover have "section_match line = Some name \<and> js_trim name = []
        \<longrightarrow> open_section (currentSection (process_line validateSyntax n st line)) = None"
    by (simp add: currentSection_process_line open_section_def)
  ultimately show ?thesis by blast
qed

theorem no_empty_section_name_witness:
  "[] \<notin> fst ` set (config (parseConfig (''[ ]'' @ [NL] @ ''a: 1'') True))
   \<and> section_match ''[ ]'' = Some '' '' \<and> js_trim '' '' = []
   \<and> open_section (currentSection (process_line True 1
        \<lparr>cfg = [], currentSection = None, currentSectionData = [], errs = []\<rparr> ''[ ]'')) = None"
proof -
  have a: "section_match ''[ ]'' = Some '' ''" by code_simp
  have b: "js_trim '' '' = []" by code_simp
  show ?thesis
    using no_empty_section_name [of "''[ ]'' @ [NL] @ ''a: 1''" True "''[ ]''" "'' ''" 1
        "\<lparr>cfg = [], currentSection = None, currentSectionData = [], errs = []\<rparr>"] a b
    by simp
qed

section \<open>Line continuation\<close>

lemma js_trim_Nil_iff: "js_trim s = [] \<longleftrightarrow> list_all is_space s"
proof -
  have "js_trim s = [] \<longleftrightarrow> (\<forall>x\<in>set (dropWhile is_space s). is_space x)"
    unfolding js_trim_def by (simp only: rev_is_Nil_conv dropWhile_eq_Nil_conv set_rev)
  also have "\<dots> \<longleftrightarrow> dropWhile is_space s = []"
  proof (cases "dropWhile is_space s")
    case Nil
    show ?thesis by (simp only: Nil list.set ball_empty simp_thms)
  next
    case (Cons a as)
    have "dropWhile is_space s \<noteq> []" unfolding Cons by simp
    then have "\<not> is_space (hd (dropWhile is_space s))"
      by (rule hd_dropWhile)
    then have "\<not> is_space a" unfolding Cons by simp
    then show ?thesis by (simp only: Cons list.set) auto
  qed
  also have "\<dots> \<longleftrightarrow> list_all is_space s"
    by (simp only: dropWhile_eq_Nil_conv list_all_iff)
  finally show ?thesis .
qed

lemma trimmed_ends:
  assumes "js_trim s = s" and "s \<noteq> []"
  shows "\<not> is_space (hd s)" and "\<not> is_space (last s)"
proof -
  have l1: "length (dropWhile is_space (rev (dropWhile is_space s))) \<le> length (dropWhile is_space s)"
    using length_dropWhile_le [of is_space "rev (dropWhile is_space s)"] by simp
  have l2: "length (dropWhile is_space s) \<le> length s" by (rule length_dropWhile_le)
  have "length (js_trim s) = length s" using assms(1) by simp
  then have e1: "length (dropWhile is_space (rev (dropWhile is_space s))) = length s"
    by (simp add: js_trim_def)
  with l1 l2 have e2: "length (dropWhile is_space s) = length s" by linarith
  show h: "\<not> is_space (hd s)"
  proof
    assume "is_space (hd s)"
    with assms(2) have "dropWhile is_space s = dropWhile is_space (tl s)"
      by (cases s) simp_all
    then have "length (dropWhile is_space s) \<le> length (tl s)"
      using length_dropWhile_le [of is_space "tl s"] by simp
    with e2 assms(2) show False by (cases s) simp_all
  qed
  from h assms(2) have d: "dropWhile is_space s = s" by (cases s) simp_all
  show "\<not> is_space (last s)"
  proof
    assume "is_space (last s)"
    with assms(2) have "is_space (hd (rev s))" by (simp add: hd_rev)
    with assms(2) have "dropWhile is_space (rev s) = dropWhile is_space (tl (rev s))"
      by (cases "rev s") simp_all
    then have "length (dropWhile is_space (rev s)) \<le> length (tl (rev s))"
      using length_dropWhile_le [of is_space "tl (rev s)"] by simp
    with e1 d assms(2) show False by (cases "rev s") simp_all
  qed
qed

lemma js_trim_ends:
  assumes "s \<noteq> []" and "\<not> is_space (hd s)" and "\<not> is_space (last s)"
  shows "js_trim s = s"
proof -
  from assms(1,2) have d: "dropWhile is_space s = s" by (cases s) simp_all
  from assms(1) have "hd (rev s) = last s" by (simp add: hd_rev)
  with assms(3) have "\<not> is_space (hd (rev s))" by simp
  then have "dropWhile is_space (rev s) = rev s"
    by (cases "rev s") simp_all
  with d show ?thesis by (simp add: js_trim_def)
qed

lemma continuation_strip_eq:
  assumes "list_all is_space ws"
  shows "continuation_strip (pre @ [BSL] @ ws) = Some pre"
proof -
  have "dropWhile is_space (rev ws @ BSL # rev pre) = BSL # rev pre"
    using assms by (simp add: dropWhile_append list_all_iff is_space_def)
  then show ?thesis by (simp add: continuation_strip_def)
qed

lemma scan_lines_blank: "scan_lines v n st ([] # rest) = scan_lines v (Suc n) st rest"
  by (cases rest) (simp_all add: js_trim_Nil_iff)

lemma not_blank_backslash: "js_trim (pre @ [BSL] @ ws) \<noteq> []"
  by (simp add: js_trim_Nil_iff is_space_def)

lemma scan_lines_continuation:
  assumes "\<not> comment_test (pre @ [BSL] @ ws)" and "list_all is_space ws"
  shows "scan_lines v n st ((pre @ [BSL] @ ws) # nx # rest) =
         scan_lines v (Suc (Suc n)) (process_line v (Suc n) st (pre @ '' '' @ js_trim nx)) rest"
proof -
  define l where "l = pre @ [BSL] @ ws"
  have c: "\<not> comment_test l" and b: "js_trim l \<noteq> []" and s: "continuation_strip l = Some pre"
    using assms not_blank_backslash [of pre ws] continuation_strip_eq [of ws pre]
    unfolding l_def by blast+
  have "scan_lines v n st (l # nx # rest) =
        scan_lines v (Suc n) (process_line v (Suc n) st (pre @ '' '' @ js_trim nx)) ([] # rest)"
    by (simp only: scan_lines.simps c b s option.case simp_thms if_False)
  then show ?thesis
    unfolding l_def by (simp only: scan_lines_blank)
qed

lemma scan_lines_last:
  assumes "\<not> comment_test l" and "js_trim l \<noteq> []"
  shows "scan_lines v n st [l] = process_line v (Suc n) st l"
  using assms by simp


text \<open>
  A line is joined with the line after it, when there is one, if it is not a comment,
  not blank, and its last character that is not white space is a backslash.
\<close>

definition continued :: "string \<Rightarrow> bool" where
  "continued l = (\<not> comment_test l \<and> js_trim l \<noteq> [] \<and> continuation_strip l \<noteq> None)"

text \<open>
  The scan examines a line unless the line before it was joined with it. \<open>scan_reaches\<close>
  says so of the line that follows the given ones: going through them from the first, a
  joined line takes the line after it along, and the last of them is not joined.
\<close>

fun scan_reaches :: "string list \<Rightarrow> bool" where
  "scan_reaches [] = True"
| "scan_reaches [l] = (\<not> continued l)"
| "scan_reaches (l # nx # rest) = (if continued l then scan_reaches rest else scan_reaches (nx # rest))"

lemma scan_lines_single:
  "\<not> continued l \<Longrightarrow> scan_lines v n st (l # rest) = scan_lines v (Suc n) (scan_lines v n st [l]) rest"
  by (cases rest) (auto simp: continued_def split: option.splits)

lemma scan_lines_prefix:
  "scan_reaches before \<Longrightarrow>
   scan_lines v n st (before @ rest) = scan_lines v (n + length before) (scan_lines v n st before) rest"
proof (induction before arbitrary: n st rule: scan_reaches.induct)
  case 1
  then show ?case by simp
next
  case (2 l)
  then have "\<not> continued l" by simp
  from scan_lines_single [OF this] show ?case by simp
next
  case (3 l nx r)
  show ?case
  proof (cases "continued l")
    case True
    then obtain stripped where c: "\<not> comment_test l" "js_trim l \<noteq> []" "continuation_strip l = Some stripped"
      by (auto simp: continued_def)
    from True "3.prems" have r: "scan_reaches r" by simp
    have a: "scan_lines v n st (l # nx # r @ rest)
             = scan_lines v (Suc (Suc n)) (process_line v (Suc n) st (stripped @ '' '' @ js_trim nx)) (r @ rest)"
      using c by (simp add: scan_lines_blank)
    have b: "scan_lines v n st (l # nx # r)
             = scan_lines v (Suc (Suc n)) (process_line v (Suc n) st (stripped @ '' '' @ js_trim nx)) r"
      using c by (simp add: scan_lines_blank)
    show ?thesis
      unfolding append_Cons a b "3.IH"(1) [OF True r] by simp
  next
    case False
    with "3.prems" have r: "scan_reaches (nx # r)" by simp
    have a: "scan_lines v n st (l # nx # r @ rest) = scan_lines v (Suc n) (scan_lines v n st [l]) (nx # r @ rest)"
      using scan_lines_single [OF False, of v n st "nx # r @ rest"] by simp
    have b: "scan_lines v n st (l # nx # r) = scan_lines v (Suc n) (scan_lines v n st [l]) (nx # r)"
      using scan_lines_single [OF False, of v n st "nx # r"] by simp
    have ih: "scan_lines v (Suc n) s' (nx # r @ rest)
              = scan_lines v (Suc n + length (nx # r)) (scan_lines v (Suc n) s' (nx # r)) rest" for s'
      using "3.IH"(2) [OF False r, of "Suc n" s'] by simp
    show ?thesis
      unfolding append_Cons a b ih by simp
  qed
qed

lemma scan_lines_continuation_at:
  assumes "scan_reaches before" and "\<not> comment_test (pre @ [BSL] @ ws)" and "list_all is_space ws"
  shows "scan_lines v n st (before @ (pre @ [BSL] @ ws) # nx # rest) =
         scan_lines v (n + length before + 2)
           (process_line v (n + length before + 1) (scan_lines v n st before) (pre @ '' '' @ js_trim nx))
           rest"
  unfolding scan_lines_prefix [OF assms(1)] scan_lines_continuation [OF assms(2,3)]
  by simp


lemma parseConfig_scan:
  "config (parseConfig content v)
     = cfg (commit (scan_lines v 0 \<lparr>cfg = [], currentSection = None, currentSectionData = [], errs = []\<rparr>
                      (js_split NL (fst (extractIncludes content)))))"
  "errors (parseConfig content v)
     = errs (scan_lines v 0 \<lparr>cfg = [], currentSection = None, currentSectionData = [], errs = []\<rparr>
               (js_split NL (fst (extractIncludes content))))"
  by (cases "extractIncludes content"; simp add: parseConfig_def parseKlipperConfig_def Let_def)+


text \<open>
  Claim C4, as the code has it. A line consumed as the continuation of the line before
  it forms no logical line of its own, and a backslash at its end joins nothing. For
  every line that the scan examines, that is not a comment and ends, after optional
  white space, in a backslash, and that has a line after it, the logical line handed to
  the section and key/value matching is the text before the backslash (white space
  before the backslash included), one space, and the trimmed next line; the scan goes
  on with the line after the next one, two line numbers on. For the input \<open>[s]\<close>,
  \<open>speed: 10 \\<close>, \<open>more\<close> the value stored under \<open>speed\<close> is the string \<open>10  more\<close>,
  with two spaces: the one that stood before the backslash and the separating one.
\<close>

theorem continuation_logical_line:
  "(js_split NL (fst (extractIncludes content)) = before @ (pre @ [BSL] @ ws) # nx # rest
      \<and> scan_reaches before \<and> \<not> comment_test (pre @ [BSL] @ ws) \<and> list_all is_space ws \<longrightarrow>
      config (parseConfig content v)
        = cfg (commit (scan_lines v (length before + 2)
            (process_line v (length before + 1)
               (scan_lines v 0 \<lparr>cfg = [], currentSection = None, currentSectionData = [], errs = []\<rparr> before)
               (pre @ '' '' @ js_trim nx))
            rest))
      \<and> errors (parseConfig content v)
        = errs (scan_lines v (length before + 2)
            (process_line v (length before + 1)
               (scan_lines v 0 \<lparr>cfg = [], currentSection = None, currentSectionData = [], errs = []\<rparr> before)
               (pre @ '' '' @ js_trim nx))
            rest))
   \<and> config (parseConfig (''[s]'' @ [NL] @ ''speed: 10 '' @ [BSL] @ [NL] @ ''more'') v)
       = [(''s'', [(''speed'', VStr ''10  more'')])]"
proof -
  have "config (parseConfig (''[s]'' @ [NL] @ ''speed: 10 '' @ [BSL] @ [NL] @ ''more'') v)
       = [(''s'', [(''speed'', VStr ''10  more'')])]"
  proof (cases v)
    case True
    then have e: "v = True" by simp
    show ?thesis unfolding e by code_simp
  next
    case False
    then have e: "v = False" by simp
    show ?thesis unfolding e by code_simp
  qed
  moreover have "config (parseConfig content v)
        = cfg (commit (scan_lines v (length before + 2)
            (process_line v (length before + 1)
               (scan_lines v 0 \<lparr>cfg = [], currentSection = None, currentSectionData = [], errs = []\<rparr> before)
               (pre @ '' '' @ js_trim nx))
            rest))
      \<and> errors (parseConfig content v)
        = errs (scan_lines v (length before + 2)
            (process_line v (length before + 1)
               (scan_lines v 0 \<lparr>cfg = [], currentSection = None, currentSectionData = [], errs = []\<rparr> before)
               (pre @ '' '' @ js_trim nx))
            rest)"
    if "js_split NL (fst (extractIncludes content)) = before @ (pre @ [BSL] @ ws) # nx # rest"
      and "scan_reaches before" and "\<not> comment_test (pre @ [BSL] @ ws)" and "list_all is_space ws"
    unfolding parseConfig_scan that(1) scan_lines_continuation_at [OF that(2,3,4)] by simp
  ultimately show ?thesis by blast
qed

theorem continuation_logical_line_witness:
  "js_split NL (fst (extractIncludes
       (''[s]'' @ [NL] @ ''speed: 10 '' @ [BSL] @ [NL] @ ''more'' @ [NL] @ ''feed: on'')))
     = [''[s]''] @ (''speed: 10 '' @ [BSL] @ []) # ''more'' # [''feed: on'']
   \<and> scan_reaches [''[s]''] \<and> \<not> comment_test (''speed: 10 '' @ [BSL] @ []) \<and> list_all is_space []
   \<and> config (parseConfig
        (''[s]'' @ [NL] @ ''speed: 10 '' @ [BSL] @ [NL] @ ''more'' @ [NL] @ ''feed: on'') True)
       = [(''s'', [(''speed'', VStr ''10  more''), (''feed'', VStr ''on'')])]
   \<and> errors (parseConfig
        (''[s]'' @ [NL] @ ''speed: 10 '' @ [BSL] @ [NL] @ ''more'' @ [NL] @ ''feed: on'') True)
       = []"
proof -
  let ?c = "''[s]'' @ [NL] @ ''speed: 10 '' @ [BSL] @ [NL] @ ''more'' @ [NL] @ ''feed: on''"
  let ?init = "\<lparr>cfg = [], currentSection = None, currentSectionData = [], errs = []\<rparr>"
  let ?st = "scan_lines True (length [''[s]''] + 2)
               (process_line True (length [''[s]''] + 1) (scan_lines True 0 ?init [''[s]''])
                  (''speed: 10 '' @ '' '' @ js_trim ''more''))
               [''feed: on'']"
  have a: "js_split NL (fst (extractIncludes ?c))
           = [''[s]''] @ (''speed: 10 '' @ [BSL] @ []) # ''more'' # [''feed: on'']"
    by code_simp
  have b: "scan_reaches [''[s]'']" by code_simp
  have c: "\<not> comment_test (''speed: 10 '' @ [BSL] @ [])" by code_simp
  have d: "list_all is_space []" by simp
  have e: "cfg (commit ?st) = [(''s'', [(''speed'', VStr ''10  more''), (''feed'', VStr ''on'')])]"
    by code_simp
  have f: "errs ?st = []" by code_simp
  from continuation_logical_line [of ?c "[''[s]'']" "''speed: 10 ''" "[]" "''more''" "[''feed: on'']" True]
    a b c d
  have "config (parseConfig ?c True) = cfg (commit ?st) \<and> errors (parseConfig ?c True) = errs ?st"
    by blast
  with a b c d e f show ?thesis by simp
qed

theorem continuation_example_counterexample:
  "map_of (config (parseConfig (''[s]'' @ [NL] @ ''speed: 10 '' @ [BSL] @ [NL] @ ''more'') True)) ''s''
     = Some [(''speed'', VStr ''10  more'')]
   \<and> VStr ''10  more'' \<noteq> VStr ''10 more''"
  by code_simp




section \<open>Include lines and line numbers\<close>

text \<open>
  Claim C6 at the input \<open>[include\<close>, \<open>foo.cfg]\<close> (two lines): the white space after
  \<open>include\<close> in the pattern also matches the line break, so the directive is matched
  across the two lines, its path is collected and both lines are removed. At the input
  \<open>[include a.cfg]\<close>, an empty line, \<open>[x]\<close> the match runs over the first line break.
\<close>

theorem include_match_spans_lines:
  "extractIncludes (''[include'' @ [NL] @ ''foo.cfg]'') = ([], [''foo.cfg''])
   \<and> extractIncludes (''[include a.cfg]'' @ [NL, NL] @ ''[x]'') = ([NL] @ ''[x]'', [''a.cfg''])"
  by code_simp

text \<open>
  Claim C8 at the input \<open>[include a.cfg]\<close>, an empty line, \<open>bad\<close>: the offending text is
  the third line of the input, and the diagnostic names line 2, because the match of
  the include line took the line break after it as well.
\<close>

theorem diagnostic_line_shifted:
  "errors (parseConfig (''[include a.cfg]'' @ [NL, NL] @ ''bad'') True)
     = [''Line 2: Configuration outside of section: bad'']
   \<and> js_split NL (''[include a.cfg]'' @ [NL, NL] @ ''bad'') = [''[include a.cfg]'', [], ''bad'']"
  by code_simp

section \<open>Value inference\<close>

text \<open>
  The kinds of text the specification of value inference speaks of. A finite decimal
  number is a decimal literal (optional sign, digits with an optional fraction and an
  optional exponent) whose value does not round to an infinity; a finite radix literal
  is an unsigned \<open>0x\<close>, \<open>0o\<close> or \<open>0b\<close> integer literal with the same proviso.
\<close>

definition is_fin :: "jsnum \<Rightarrow> bool" where
  "is_fin n = (case n of Fin q \<Rightarrow> True | _ \<Rightarrow> False)"

definition boolean_text :: "string \<Rightarrow> bool" where
  "boolean_text v = (toLowerCase v = ''true'' \<or> toLowerCase v = ''false'')"

definition finite_decimal :: "string \<Rightarrow> bool" where
  "finite_decimal v =
     (case str_decimal v of
        Some (neg, Some m) \<Rightarrow> is_fin (round_double (if neg then - m else m))
      | _ \<Rightarrow> False)"

definition finite_radix :: "string \<Rightarrow> bool" where
  "finite_radix v =
     (case radix_literal v of Some n \<Rightarrow> is_fin (round_double (of_int n)) | None \<Rightarrow> False)"

definition number_text :: "string \<Rightarrow> bool" where
  "number_text v = (v \<noteq> [] \<and> (finite_decimal v \<or> finite_radix v))"

lemma radix_not_decimal: "radix_literal v = Some n \<Longrightarrow> str_decimal v = None"
proof -
  assume r: "radix_literal v = Some n"
  then obtain x ds where v: "v = CHR ''0'' # x # ds"
    and x: "x = CHR ''x'' \<or> x = CHR ''X'' \<or> x = CHR ''o'' \<or> x = CHR ''O''
            \<or> x = CHR ''b'' \<or> x = CHR ''B''"
    by (auto simp: radix_literal_def Let_def split: list.splits if_splits)
  from x show ?thesis
    by (auto simp: v str_decimal_def exponent_part_def is_digit_def Let_def)
qed

lemma js_Number_trimmed:
  assumes "js_trim v = v" and "v \<noteq> []"
  shows "is_fin (js_Number v) \<longleftrightarrow> finite_decimal v \<or> finite_radix v"
proof (cases "radix_literal v")
  case None
  then show ?thesis
    using assms
    by (auto simp: js_Number_def finite_decimal_def finite_radix_def is_fin_def Let_def
             split: option.splits)
next
  case (Some n)
  from radix_not_decimal [OF this] Some show ?thesis
    using assms
    by (simp add: js_Number_def finite_decimal_def finite_radix_def Let_def)
qed


lemma lower_char_changes: "lower_char a \<noteq> a \<Longrightarrow> (65::nat) \<le> of_char a"
  by (auto simp: lower_char_def Let_def split: if_splits)

lemma lower_char_letter:
  assumes "lower_char a = CHR ''t'' \<or> lower_char a = CHR ''f''"
  shows "\<not> is_digit a" and "a \<noteq> CHR ''+''" and "a \<noteq> CHR ''-''" and "a \<noteq> CHR ''.''"
    and "a \<noteq> CHR ''0''" and "a \<noteq> CHR ''I''"
proof -
  have *: "a = CHR ''t'' \<or> a = CHR ''f'' \<or> (65::nat) \<le> of_char a"
    using assms lower_char_changes [of a] by metis
  have i: "lower_char (CHR ''I'') = CHR ''i''" by code_simp
  from * show "\<not> is_digit a" by (auto simp: is_digit_def)
  from * show "a \<noteq> CHR ''+''" "a \<noteq> CHR ''-''" "a \<noteq> CHR ''.''" "a \<noteq> CHR ''0''" by auto
  from assms i show "a \<noteq> CHR ''I''" by auto
qed

lemma boolean_not_number:
  assumes "boolean_text v" and "js_trim v = v"
  shows "js_Number v = NaN"
proof -
  from assms(1) obtain a r where v: "v = a # r"
    and a: "lower_char a = CHR ''t'' \<or> lower_char a = CHR ''f''"
    by (auto simp: boolean_text_def toLowerCase_def map_eq_Cons_conv)
  note l = lower_char_letter [OF a]
  have "radix_literal v = None"
    using l(5) by (simp add: v radix_literal_def Let_def split: list.splits)
  moreover have "str_decimal v = None"
    using l by (simp add: v str_decimal_def Let_def)
  ultimately show ?thesis
    using assms(2) v by (simp add: js_Number_def Let_def)
qed

lemma parseValue_unfold:
  "parseValue v =
     (if v = [] then VStr []
      else if boolean_text v then VBool (toLowerCase v = ''true'')
      else (case js_Number v of
              Fin q \<Rightarrow> VNum q
            | _ \<Rightarrow> if CHR '','' \<in> set v
                   then VList (map (\<lambda>s. parseValue (js_trim s)) (js_split (CHR '','') v))
                   else VStr v))"
  by (subst parseValue.simps) (auto simp: boolean_text_def Let_def)

text \<open>
  Claim C3, as the code has it. On a trimmed text, value inference yields a boolean
  exactly for a case-insensitive \<open>true\<close> or \<open>false\<close>; a number exactly when the text is
  not empty and is a finite decimal number or a finite \<open>0x\<close>, \<open>0o\<close> or \<open>0b\<close> integer
  literal; the list of the inferred trimmed pieces exactly when it is neither and holds
  a comma; and the text itself as a string otherwise, the empty text included.
\<close>

theorem value_inference:
  assumes "js_trim v = v"
  shows "((\<exists>b. parseValue v = VBool b) \<longleftrightarrow> boolean_text v)
       \<and> ((\<exists>q. parseValue v = VNum q) \<longleftrightarrow> number_text v)
       \<and> ((\<exists>xs. parseValue v = VList xs)
            \<longleftrightarrow> \<not> boolean_text v \<and> \<not> number_text v \<and> CHR '','' \<in> set v)
       \<and> ((\<exists>s. parseValue v = VStr s)
            \<longleftrightarrow> \<not> boolean_text v \<and> \<not> number_text v \<and> CHR '','' \<notin> set v)
       \<and> (parseValue v = VBool b \<longrightarrow> b = (toLowerCase v = ''true''))
       \<and> (parseValue v = VList xs
            \<longrightarrow> xs = map (\<lambda>s. parseValue (js_trim s)) (js_split (CHR '','') v))
       \<and> (parseValue v = VStr s \<longrightarrow> s = v)"
proof (cases "v = []")
  case True
  then show ?thesis
    by (simp add: parseValue_unfold boolean_text_def number_text_def toLowerCase_def)
next
  case ne: False
  show ?thesis
  proof (cases "boolean_text v")
    case True
    from boolean_not_number [OF True assms] have "\<not> number_text v"
      using js_Number_trimmed [OF assms ne] by (simp add: number_text_def is_fin_def)
    with True ne show ?thesis
      by (auto simp: parseValue_unfold)
  next
    case nb: False
    have n: "number_text v \<longleftrightarrow> is_fin (js_Number v)"
      using js_Number_trimmed [OF assms ne] ne by (simp add: number_text_def)
    show ?thesis
    proof (cases "js_Number v")
      case (Fin q)
      with ne nb n show ?thesis
        by (simp add: parseValue_unfold is_fin_def)
    next
      case NaN
      with ne nb n show ?thesis
        by (auto simp: parseValue_unfold is_fin_def)
    next
      case PosInf
      with ne nb n show ?thesis
        by (auto simp: parseValue_unfold is_fin_def)
    next
      case NegInf
      with ne nb n show ?thesis
        by (auto simp: parseValue_unfold is_fin_def)
    qed
  qed
qed


theorem value_inference_witness:
  "js_trim ''x,TRUE'' = ''x,TRUE''
   \<and> \<not> boolean_text ''x,TRUE'' \<and> \<not> number_text ''x,TRUE'' \<and> CHR '','' \<in> set ''x,TRUE''
   \<and> parseValue ''x,TRUE'' = VList [VStr ''x'', VBool True]"
proof -
  have t: "js_trim ''x,TRUE'' = ''x,TRUE''" by code_simp
  have nb: "\<not> boolean_text ''x,TRUE''" by code_simp
  have nn: "\<not> number_text ''x,TRUE''" by code_simp
  have c: "CHR '','' \<in> set ''x,TRUE''" by simp
  from value_inference [OF t] nb nn c obtain xs where x: "parseValue ''x,TRUE'' = VList xs"
    by blast
  from value_inference [OF t, of _ xs] x
  have "xs = map (\<lambda>s. parseValue (js_trim s)) (js_split (CHR '','') ''x,TRUE'')" by blast
  moreover have "map (\<lambda>s. parseValue (js_trim s)) (js_split (CHR '','') ''x,TRUE'')
                 = [VStr ''x'', VBool True]" by code_simp
  ultimately show ?thesis using t nb nn c x by simp
qed

lemma js_Number_0x10: "js_Number ''0x10'' = Fin 16"
  by (simp add: js_Number_def js_trim_def is_space_def radix_literal_def digits_value_def
      digit_value_def round_double_def floor_log2_def pow2_def round_half_even_def
      bit_length.simps Let_def)

theorem hexadecimal_number_counterexample:
  "js_trim ''0x10'' = ''0x10'' \<and> parseValue ''0x10'' = VNum 16 \<and> \<not> finite_decimal ''0x10''"
proof -
  have "js_trim ''0x10'' = ''0x10''" by (simp add: js_trim_def is_space_def)
  moreover have "\<not> boolean_text ''0x10''"
    by (simp add: boolean_text_def toLowerCase_def)
  then have "parseValue ''0x10'' = VNum 16"
    by (simp add: parseValue_unfold js_Number_0x10)
  moreover have "\<not> finite_decimal ''0x10''"
    by (simp add: finite_decimal_def str_decimal_def exponent_part_def is_digit_def Let_def)
  ultimately show ?thesis by blast
qed

section \<open>The parameter rules\<close>
























section \<open>Duplicate sections and keys\<close>

text \<open>
  The section headers of a list of logical lines and the data gathered under one of
  them, in the words of the specification: a header carries the trimmed content of its
  brackets; the names of the document are the non-empty ones; the data of a section is
  what its key/value lines store, one after the other, starting from nothing.
\<close>

definition header_name :: "string \<Rightarrow> string option" where
  "header_name l = map_option js_trim (section_match l)"

definition header_names :: "string list \<Rightarrow> string list" where
  "header_names ls = filter (\<lambda>n. n \<noteq> []) (List.map_filter header_name ls)"

definition stored_key :: "string \<Rightarrow> string option" where
  "stored_key l = (case kv_match l of None \<Rightarrow> None | Some (k, x) \<Rightarrow> Some (js_trim k))"

fun first_occurrences :: "string list \<Rightarrow> string list" where
  "first_occurrences [] = []"
| "first_occurrences (x # xs) = x # first_occurrences (removeAll x xs)"

definition plain_key :: "string \<Rightarrow> bool" where
  "plain_key k = (\<not> is_array_index k \<and> k \<noteq> ''__proto__'')"

definition open_list :: "scan_state \<Rightarrow> string list" where
  "open_list st = (case open_section (currentSection st) of None \<Rightarrow> [] | Some c \<Rightarrow> [c])"

lemma header_names_Cons:
  "header_names (l # ls) =
     (case section_match l of
        None \<Rightarrow> header_names ls
      | Some raw \<Rightarrow> (if js_trim raw = [] then [] else [js_trim raw]) @ header_names ls)"
  by (simp add: header_names_def header_name_def map_filter_simps split: option.splits)

lemma header_names_Nil [simp]: "header_names [] = []"
  by (simp add: header_names_def map_filter_simps)

lemma commit_other:
  "open_section (currentSection st) \<noteq> Some nm \<Longrightarrow> map_of (cfg (commit st)) nm = map_of (cfg st) nm"
  by (cases "open_section (currentSection st)") (simp_all add: cfg_commit map_of_js_set)

lemma commit_this:
  "open_section (currentSection st) = Some nm \<Longrightarrow> nm \<noteq> ''__proto__'' \<Longrightarrow>
   map_of (cfg (commit st)) nm = Some (currentSectionData st)"
  by (simp add: cfg_commit map_of_js_set)

lemma run_lines_body:
  assumes "open_section (currentSection st) = Some cur"
    and "list_all (\<lambda>l. section_match l = None) (map snd body)"
  shows "cfg (run_lines v st body) = cfg st
       \<and> currentSection (run_lines v st body) = currentSection st
       \<and> currentSectionData (run_lines v st body) = foldl store_kv (currentSectionData st) (map snd body)"
  using assms
proof (induction body arbitrary: st)
  case Nil
  then show ?case by simp
next
  case (Cons p body)
  obtain m l where p: "p = (m, l)" by (cases p)
  let ?st' = "process_line v m st l"
  from Cons.prems(2) have n: "section_match l = None"
    and rest: "list_all (\<lambda>l. section_match l = None) (map snd body)"
    by (simp_all add: p)
  have c: "cfg ?st' = cfg st" and s: "currentSection ?st' = currentSection st"
    and d: "currentSectionData ?st' = store_kv (currentSectionData st) l"
    using n Cons.prems(1)
    by (simp_all add: cfg_process_line currentSection_process_line currentSectionData_process_line)
  from Cons.prems(1) s have "open_section (currentSection ?st') = Some cur" by simp
  from Cons.IH [OF this rest] show ?case
    by (simp add: p c s d)
qed

lemma run_lines_keeps:
  assumes "open_section (currentSection st) \<noteq> Some nm"
    and "list_all (\<lambda>l. header_name l \<noteq> Some nm) (map snd post)"
  shows "map_of (cfg (commit (run_lines v st post))) nm = map_of (cfg st) nm"
  using assms
proof (induction post arbitrary: st)
  case Nil
  then show ?case by (simp add: commit_other)
next
  case (Cons p post)
  obtain m l where p: "p = (m, l)" by (cases p)
  let ?st' = "process_line v m st l"
  from Cons.prems(2) have h: "header_name l \<noteq> Some nm"
    and rest: "list_all (\<lambda>l. header_name l \<noteq> Some nm) (map snd post)"
    by (simp_all add: p)
  have o: "open_section (currentSection ?st') \<noteq> Some nm"
    using h Cons.prems(1)
    by (cases "section_match l")
       (auto simp: currentSection_process_line header_name_def open_section_def)
  have c: "map_of (cfg ?st') nm = map_of (cfg st) nm"
    using Cons.prems(1)
    by (cases "section_match l") (simp_all add: cfg_process_line commit_other)
  from Cons.IH [OF o rest] c show ?case
    by (simp add: p)
qed

lemma store_kv_other:
  "stored_key l \<noteq> Some key \<Longrightarrow> map_of (store_kv d l) key = map_of d key"
  by (cases "kv_match l") (auto simp: store_kv_def stored_key_def map_of_js_set split: if_splits)

lemma store_kv_this:
  "kv_match l = Some (k, x) \<Longrightarrow> js_trim k \<noteq> [] \<Longrightarrow> js_trim k \<noteq> ''__proto__'' \<Longrightarrow>
   map_of (store_kv d l) (js_trim k) = Some (parseValue (js_trim x))"
  by (simp add: store_kv_def map_of_js_set)

lemma foldl_store_kv_other:
  "list_all (\<lambda>l. stored_key l \<noteq> Some key) ls \<Longrightarrow> map_of (foldl store_kv d ls) key = map_of d key"
  by (induction ls arbitrary: d) (simp_all add: store_kv_other)

lemma last_key_wins:
  assumes "kv_match l = Some (k, x)" and "js_trim k \<noteq> []" and "js_trim k \<noteq> ''__proto__''"
    and "list_all (\<lambda>l. stored_key l \<noteq> Some (js_trim k)) b2"
  shows "map_of (foldl store_kv d (b1 @ [l] @ b2)) (js_trim k) = Some (parseValue (js_trim x))"
  using assms by (simp add: foldl_store_kv_other store_kv_this)

lemma last_section_wins:
  assumes "map snd ls = pre @ [h] @ body @ post"
    and "header_name h = Some nm" and "nm \<noteq> []" and "nm \<noteq> ''__proto__''"
    and "list_all (\<lambda>l. section_match l = None) body"
    and "post = [] \<or> section_match (hd post) \<noteq> None"
    and "list_all (\<lambda>l. header_name l \<noteq> Some nm) post"
  shows "map_of (cfg (commit (run_lines v st ls))) nm = Some (foldl store_kv [] body)"
proof -
  from assms(1) obtain pre' r1 where ls1: "ls = pre' @ r1" and "map snd r1 = [h] @ body @ post"
    by (auto simp: map_eq_append_conv)
  then obtain m r2 where r1: "r1 = (m, h) # r2" and "map snd r2 = body @ post"
    by (auto simp: map_eq_Cons_conv)
  then obtain body' post' where r2: "r2 = body' @ post'"
    and b: "map snd body' = body" and po: "map snd post' = post"
    by (auto simp: map_eq_append_conv)
  define st1 where "st1 = run_lines v st pre'"
  define st2 where "st2 = process_line v m st1 h"
  define st3 where "st3 = run_lines v st2 body'"
  from assms(2) obtain raw where raw: "section_match h = Some raw" "js_trim raw = nm"
    by (auto simp: header_name_def)
  have s2: "currentSection st2 = Some nm" "currentSectionData st2 = []"
    using raw assms(3)
    by (simp_all add: st2_def currentSection_process_line currentSectionData_process_line)
  then have o2: "open_section (currentSection st2) = Some nm"
    using assms(3) by (simp add: open_section_def)
  from run_lines_body [OF o2, of body' v] assms(5) b s2
  have s3: "currentSection st3 = Some nm" "currentSectionData st3 = foldl store_kv [] body"
    by (simp_all add: st3_def)
  then have o3: "open_section (currentSection st3) = Some nm"
    using assms(3) by (simp add: open_section_def)
  have run: "run_lines v st ls = run_lines v st3 post'"
    by (simp add: ls1 r1 r2 run_lines_append st1_def st2_def st3_def)
  show ?thesis
  proof (cases post')
    case Nil
    with commit_this [OF o3 assms(4)] s3 show ?thesis by (simp add: run)
  next
    case (Cons q post'')
    obtain m' h' where q: "q = (m', h')" by (cases q)
    define st4 where "st4 = process_line v m' st3 h'"
    from po Cons q assms(6) obtain raw' where raw': "section_match h' = Some raw'"
      by auto
    from po Cons q assms(7) have hn: "header_name h' \<noteq> Some nm"
      and rest: "list_all (\<lambda>l. header_name l \<noteq> Some nm) (map snd post'')"
      by auto
    have c4: "cfg st4 = cfg (commit st3)"
      by (simp add: st4_def cfg_process_line raw')
    have o4: "open_section (currentSection st4) \<noteq> Some nm"
      using hn raw'
      by (auto simp: st4_def currentSection_process_line header_name_def open_section_def)
    from run_lines_keeps [OF o4 rest, of v] c4 commit_this [OF o3 assms(4)] s3
    show ?thesis by (simp add: run Cons q st4_def)
  qed
qed


text \<open>The logical lines that the scanner sees for an input text, include lines removed.\<close>

definition logical_text :: "string \<Rightarrow> string list" where
  "logical_text content = map snd (logical_lines 0 (js_split NL (fst (extractIncludes content))))"

lemma config_parseConfig:
  "config (parseConfig content v) =
     cfg (commit (run_lines v \<lparr>cfg = [], currentSection = None, currentSectionData = [], errs = []\<rparr>
                    (logical_lines 0 (js_split NL (fst (extractIncludes content))))))"
  by (cases "extractIncludes content")
     (simp add: parseConfig_def parseKlipperConfig_def scan_lines_run Let_def)

text \<open>
  The keys of an object after an assignment. \<open>insert_key\<close> is \<open>insert_index\<close> on the
  keys alone.
\<close>

fun insert_key :: "string \<Rightarrow> string list \<Rightarrow> string list" where
  "insert_key k [] = [k]"
| "insert_key k (k' # ks) =
     (if is_array_index k' \<and> digits_value 10 k' < digits_value 10 k
      then k' # insert_key k ks
      else k # k' # ks)"

definition add_key :: "string list \<Rightarrow> string \<Rightarrow> string list" where
  "add_key ks k =
     (if k = ''__proto__'' \<or> k \<in> set ks then ks
      else if is_array_index k then insert_key k ks
      else ks @ [k])"

lemma keys_insert_index: "map fst (insert_index k v obj) = insert_key k (map fst obj)"
  by (induction obj) auto

lemma keys_js_set_all: "map fst (js_set obj k v) = add_key (map fst obj) k"
proof -
  have "map_of obj k \<noteq> None \<longleftrightarrow> k \<in> set (map fst obj)"
    by (simp add: map_of_eq_None_iff)
  then show ?thesis
    by (simp add: js_set_def add_key_def update_keys keys_insert_index)
qed

lemma keys_commit_all:
  "map fst (cfg (commit st)) = foldl add_key (map fst (cfg st)) (open_list st)"
  by (cases "open_section (currentSection st)")
     (simp_all add: cfg_commit open_list_def keys_js_set_all)

lemma keys_run_lines_all:
  "map fst (cfg (commit (run_lines v st ls)))
   = foldl add_key (map fst (cfg st)) (open_list st @ header_names (map snd ls))"
proof (induction ls arbitrary: st)
  case Nil
  then show ?case by (simp add: keys_commit_all)
next
  case (Cons p ls)
  obtain m l where p: "p = (m, l)" by (cases p)
  let ?st' = "process_line v m st l"
  show ?case
  proof (cases "section_match l")
    case None
    then have same: "cfg ?st' = cfg st" "open_list ?st' = open_list st"
      by (simp_all add: cfg_process_line currentSection_process_line open_list_def)
    have hn: "header_names (l # map snd ls) = header_names (map snd ls)"
      by (simp add: header_names_Cons None)
    from Cons.IH [of ?st'] show ?thesis
      by (simp only: p run_lines_Cons list.map snd_conv hn same)
  next
    case (Some raw)
    define new where "new = (if js_trim raw = [] then [] else [js_trim raw])"
    have ol: "open_list ?st' = new"
      by (simp add: open_list_def currentSection_process_line Some open_section_def new_def)
    have c: "cfg ?st' = cfg (commit st)"
      by (simp add: cfg_process_line Some)
    have hn: "header_names (l # map snd ls) = new @ header_names (map snd ls)"
      by (simp add: header_names_Cons Some new_def)
    from Cons.IH [of ?st']
    have "map fst (cfg (commit (run_lines v ?st' ls)))
          = foldl add_key (map fst (cfg (commit st))) (new @ header_names (map snd ls))"
      by (simp only: ol c)
    then show ?thesis
      by (simp only: p run_lines_Cons list.map snd_conv hn keys_commit_all foldl_append)
  qed
qed

text \<open>Array indices are canonical numerals: two of them with the same value are equal.\<close>

lemma digits_value_snoc: "digits_value b (ds @ [d]) = digits_value b ds * b + digit_value d"
  by (simp add: digits_value_def)

lemma digit_value_digit:
  assumes "is_digit c"
  shows "0 \<le> digit_value c" and "digit_value c \<le> 9" and "digit_value c = 0 \<longleftrightarrow> c = CHR ''0''"
proof -
  from assms have r: "48 \<le> (of_char c :: nat)" "(of_char c :: nat) \<le> 57"
    by (simp_all add: is_digit_def Let_def)
  have i: "(of_char c :: int) = int (of_char c)" by (simp add: of_char_def)
  from r i have v: "digit_value c = int (of_char c) - 48"
    by (simp add: digit_value_def Let_def)
  from r v show "0 \<le> digit_value c" "digit_value c \<le> 9" by simp_all
  have "c = CHR ''0'' \<longleftrightarrow> (of_char c :: nat) = of_char (CHR ''0'')"
    by (simp only: of_char_eq_iff)
  also have "\<dots> \<longleftrightarrow> (of_char c :: nat) = 48" by simp
  finally show "digit_value c = 0 \<longleftrightarrow> c = CHR ''0''" using r v by auto
qed

lemma digit_value_inj:
  assumes "is_digit c" and "is_digit d" and "digit_value c = digit_value d"
  shows "c = d"
proof -
  from assms(1) have rc: "48 \<le> (of_char c :: nat)" "(of_char c :: nat) \<le> 57"
    by (simp_all add: is_digit_def Let_def)
  from assms(2) have rd: "48 \<le> (of_char d :: nat)" "(of_char d :: nat) \<le> 57"
    by (simp_all add: is_digit_def Let_def)
  have i: "(of_char x :: int) = int (of_char x)" for x by (simp add: of_char_def)
  from rc i have vc: "digit_value c = int (of_char c) - 48"
    by (simp add: digit_value_def Let_def)
  from rd i have vd: "digit_value d = int (of_char d) - 48"
    by (simp add: digit_value_def Let_def)
  from assms(3) vc vd have "(of_char c :: nat) = of_char d" by simp
  then show ?thesis by (simp only: of_char_eq_iff)
qed

lemma digits_value_pos:
  "list_all is_digit ds \<Longrightarrow> ds \<noteq> [] \<Longrightarrow> hd ds \<noteq> CHR ''0'' \<Longrightarrow> 0 < digits_value 10 ds"
proof (induction ds rule: rev_induct)
  case Nil
  then show ?case by simp
next
  case (snoc d ds)
  from snoc.prems(1) have d: "is_digit d" and a: "list_all is_digit ds" by simp_all
  show ?case
  proof (cases "ds = []")
    case True
    with snoc.prems(3) have "d \<noteq> CHR ''0''" by simp
    with digit_value_digit [OF d] have "0 < digit_value d" by simp
    with True show ?thesis by (simp add: digits_value_def)
  next
    case False
    with snoc.prems(3) have "hd ds \<noteq> CHR ''0''" by simp
    from snoc.IH [OF a False this] digit_value_digit(1) [OF d] show ?thesis
      by (simp add: digits_value_snoc)
  qed
qed

lemma digits_value_inj:
  "list_all is_digit a \<Longrightarrow> (a \<noteq> [] \<longrightarrow> hd a \<noteq> CHR ''0'') \<Longrightarrow>
   list_all is_digit b \<Longrightarrow> (b \<noteq> [] \<longrightarrow> hd b \<noteq> CHR ''0'') \<Longrightarrow>
   digits_value 10 a = digits_value 10 b \<Longrightarrow> a = b"
proof (induction a arbitrary: b rule: rev_induct)
  case Nil
  show ?case
  proof (rule ccontr)
    assume "[] \<noteq> b"
    then have "b \<noteq> []" by simp
    with Nil.prems have "0 < digits_value 10 b" by (simp add: digits_value_pos)
    with Nil.prems(5) show False by (simp add: digits_value_def)
  qed
next
  case (snoc x a)
  from snoc.prems(1) have x: "is_digit x" and da: "list_all is_digit a" by simp_all
  from snoc.prems(2) have ha: "a \<noteq> [] \<longrightarrow> hd a \<noteq> CHR ''0''" by (cases a) simp_all
  from snoc.prems(1,2) have "0 < digits_value 10 (a @ [x])"
    by (intro digits_value_pos) simp_all
  with snoc.prems(5) have "b \<noteq> []" by (auto simp: digits_value_def)
  then obtain y b' where b: "b = b' @ [y]" by (cases b rule: rev_cases) simp_all
  from snoc.prems(3) b have y: "is_digit y" and db: "list_all is_digit b'" by simp_all
  from snoc.prems(4) b have hb: "b' \<noteq> [] \<longrightarrow> hd b' \<noteq> CHR ''0''" by (cases b') simp_all
  from snoc.prems(5) have e: "digits_value 10 a * 10 + digit_value x = digits_value 10 b' * 10 + digit_value y"
    by (simp add: b digits_value_snoc)
  note rx = digit_value_digit(1,2) [OF x] and ry = digit_value_digit(1,2) [OF y]
  from e rx ry have "digit_value x = digit_value y" and v: "digits_value 10 a = digits_value 10 b'"
    by presburger+
  from digit_value_inj [OF x y this(1)] snoc.IH [OF da ha db hb v] show ?case
    by (simp add: b)
qed

lemma array_index_inj:
  assumes "is_array_index a" and "is_array_index b" and "digits_value 10 a = digits_value 10 b"
  shows "a = b"
proof -
  have z: "digits_value 10 ''0'' = 0" by (simp add: digits_value_def digit_value_def)
  have c: "k = ''0'' \<or> (list_all is_digit k \<and> k \<noteq> [] \<and> hd k \<noteq> CHR ''0'')" if "is_array_index k" for k
    using that by (auto simp: is_array_index_def)
  from c [OF assms(1)] c [OF assms(2)] show ?thesis
  proof (elim disjE)
    assume "a = ''0''" "b = ''0''"
    then show ?thesis by simp
  next
    assume "a = ''0''" and b: "list_all is_digit b \<and> b \<noteq> [] \<and> hd b \<noteq> CHR ''0''"
    then have "0 < digits_value 10 b" by (simp add: digits_value_pos)
    with \<open>a = ''0''\<close> assms(3) z show ?thesis by simp
  next
    assume "b = ''0''" and a: "list_all is_digit a \<and> a \<noteq> [] \<and> hd a \<noteq> CHR ''0''"
    then have "0 < digits_value 10 a" by (simp add: digits_value_pos)
    with \<open>b = ''0''\<close> assms(3) z show ?thesis by simp
  next
    assume "list_all is_digit a \<and> a \<noteq> [] \<and> hd a \<noteq> CHR ''0''"
      and "list_all is_digit b \<and> b \<noteq> [] \<and> hd b \<noteq> CHR ''0''"
    with assms(3) show ?thesis by (intro digits_value_inj) simp_all
  qed
qed


text \<open>Keys that are array indices, in ascending numeric order.\<close>

definition ascending_indices :: "string list \<Rightarrow> bool" where
  "ascending_indices ks =
     (list_all is_array_index ks \<and> sorted_wrt (\<lambda>a b. digits_value 10 a < digits_value 10 b) ks)"

lemma insert_key_index:
  assumes "is_array_index k" and "k \<notin> set is" and "ascending_indices is"
    and "\<forall>x\<in>set ps. \<not> is_array_index x"
  shows "\<exists>js. insert_key k (is @ ps) = js @ ps \<and> set js = insert k (set is) \<and> ascending_indices js"
  using assms(2,3)
proof (induction "is")
  case Nil
  have "insert_key k ps = [k] @ ps"
    using assms(4) by (cases ps) simp_all
  moreover have "ascending_indices [k]"
    using assms(1) by (simp add: ascending_indices_def)
  ultimately show ?case by (intro exI [of _ "[k]"]) simp
next
  case (Cons i "is")
  from Cons.prems have ki: "k \<noteq> i" and k: "k \<notin> set is" and i: "is_array_index i"
    and lt: "\<forall>x\<in>set is. digits_value 10 i < digits_value 10 x" and a: "ascending_indices is"
    by (simp_all add: ascending_indices_def)
  show ?case
  proof (cases "digits_value 10 i < digits_value 10 k")
    case True
    from Cons.IH [OF k a] obtain js where js: "insert_key k (is @ ps) = js @ ps"
      "set js = insert k (set is)" "ascending_indices js" by blast
    have "insert_key k ((i # is) @ ps) = (i # js) @ ps"
      using True i js(1) by simp
    moreover have "set (i # js) = insert k (set (i # is))" using js(2) by auto
    moreover have "ascending_indices (i # js)"
      using js(2,3) i lt True by (auto simp: ascending_indices_def)
    ultimately show ?thesis by blast
  next
    case False
    have "digits_value 10 k \<noteq> digits_value 10 i"
      using array_index_inj [OF assms(1) i] ki by blast
    with False have l: "digits_value 10 k < digits_value 10 i" by simp
    have "insert_key k ((i # is) @ ps) = (k # i # is) @ ps"
      using False by simp
    moreover have "set (k # i # is) = insert k (set (i # is))" by simp
    moreover have "ascending_indices (k # i # is)"
      using Cons.prems(2) assms(1) l lt by (auto simp: ascending_indices_def)
    ultimately show ?thesis by blast
  qed
qed

lemma first_occurrences_set: "set (first_occurrences xs) = set xs"
  by (induction xs rule: first_occurrences.induct) auto

lemma first_occurrences_snoc:
  "first_occurrences (xs @ [k])
   = (if k \<in> set xs then first_occurrences xs else first_occurrences xs @ [k])"
proof (induction xs rule: first_occurrences.induct)
  case 1
  then show ?case by simp
next
  case (2 x xs)
  show ?case
  proof (cases "x = k")
    case True
    then show ?thesis by simp
  next
    case False
    then have "removeAll x (xs @ [k]) = removeAll x xs @ [k]" by simp
    with "2.IH" False show ?thesis by simp
  qed
qed

lemma not_index_proto: "\<not> is_array_index ''__proto__''"
  by (simp add: is_array_index_def is_digit_def)

lemma foldl_add_key_order:
  "\<exists>js. foldl add_key [] names = js @ first_occurrences (filter plain_key names)
        \<and> set js = set (filter is_array_index names) \<and> ascending_indices js"
proof (induction names rule: rev_induct)
  case Nil
  then show ?case by (simp add: ascending_indices_def)
next
  case (snoc k names)
  define ps where "ps = first_occurrences (filter plain_key names)"
  from snoc.IH obtain js where js: "foldl add_key [] names = js @ ps"
    "set js = set (filter is_array_index names)" "ascending_indices js"
    unfolding ps_def by blast
  have pp: "\<forall>x\<in>set ps. \<not> is_array_index x"
    by (auto simp: ps_def first_occurrences_set plain_key_def)
  have ji: "\<forall>x\<in>set js. is_array_index x"
    using js(3) by (simp add: ascending_indices_def list_all_iff)
  have f: "foldl add_key [] (names @ [k]) = add_key (js @ ps) k"
    by (simp add: js(1))
  consider (proto) "k = ''__proto__''"
    | (old_index) "k \<noteq> ''__proto__''" "k \<in> set (js @ ps)" "is_array_index k"
    | (old_plain) "k \<noteq> ''__proto__''" "k \<in> set (js @ ps)" "\<not> is_array_index k"
    | (new_index) "k \<noteq> ''__proto__''" "k \<notin> set (js @ ps)" "is_array_index k"
    | (new_plain) "k \<noteq> ''__proto__''" "k \<notin> set (js @ ps)" "\<not> is_array_index k"
    by blast
  then show ?case
  proof cases
    case proto
    then have "add_key (js @ ps) k = js @ ps" by (simp add: add_key_def)
    moreover have "filter plain_key (names @ [k]) = filter plain_key names"
      using proto by (simp add: plain_key_def)
    moreover have "filter is_array_index (names @ [k]) = filter is_array_index names"
      using proto not_index_proto by simp
    ultimately show ?thesis using js(2,3) unfolding f ps_def by metis
  next
    case old_index
    then have a: "add_key (js @ ps) k = js @ ps" by (simp add: add_key_def)
    from old_index pp have "k \<in> set js" by auto
    then have b: "set js = set (filter is_array_index (names @ [k]))"
      using js(2) old_index(3) by auto
    have c: "filter plain_key (names @ [k]) = filter plain_key names"
      using old_index(3) by (simp add: plain_key_def)
    show ?thesis using js(3) b unfolding f a c ps_def [symmetric] by blast
  next
    case old_plain
    then have a: "add_key (js @ ps) k = js @ ps" by (simp add: add_key_def)
    from old_plain ji have "k \<in> set ps" by auto
    then have "k \<in> set (filter plain_key names)" by (simp add: ps_def first_occurrences_set)
    moreover have "filter plain_key (names @ [k]) = filter plain_key names @ [k]"
      using old_plain(1,3) by (simp add: plain_key_def)
    ultimately have c: "first_occurrences (filter plain_key (names @ [k])) = ps"
      by (simp add: first_occurrences_snoc ps_def)
    have b: "set js = set (filter is_array_index (names @ [k]))"
      using js(2) old_plain(3) by simp
    show ?thesis using js(3) b unfolding f a c by blast
  next
    case new_index
    then have a: "add_key (js @ ps) k = insert_key k (js @ ps)" by (simp add: add_key_def)
    from new_index have "k \<notin> set js" by simp
    from insert_key_index [OF new_index(3) this js(3) pp] obtain js' where
      js': "insert_key k (js @ ps) = js' @ ps" "set js' = insert k (set js)" "ascending_indices js'"
      by blast
    have b: "set js' = set (filter is_array_index (names @ [k]))"
      using js'(2) js(2) new_index(3) by auto
    have c: "filter plain_key (names @ [k]) = filter plain_key names"
      using new_index(3) by (simp add: plain_key_def)
    show ?thesis using js'(3) b unfolding f a c js'(1) ps_def [symmetric] by blast
  next
    case new_plain
    then have a: "add_key (js @ ps) k = js @ (ps @ [k])" by (simp add: add_key_def)
    from new_plain have "k \<notin> set ps" by simp
    then have "k \<notin> set (filter plain_key names)" by (simp add: ps_def first_occurrences_set)
    moreover have "filter plain_key (names @ [k]) = filter plain_key names @ [k]"
      using new_plain(1,3) by (simp add: plain_key_def)
    ultimately have c: "first_occurrences (filter plain_key (names @ [k])) = ps @ [k]"
      by (simp add: first_occurrences_snoc ps_def)
    have b: "set js = set (filter is_array_index (names @ [k]))"
      using js(2) new_plain(3) by simp
    show ?thesis using js(3) b unfolding f a c by blast
  qed
qed

lemma key_order:
  assumes "ks = foldl add_key [] names"
  shows "ks = filter is_array_index ks @ first_occurrences (filter plain_key names)"
    and "ascending_indices (filter is_array_index ks)"
    and "set (filter is_array_index ks) = set (filter is_array_index names)"
    and "''__proto__'' \<notin> set ks"
proof -
  from foldl_add_key_order [of names] obtain js where
    js: "ks = js @ first_occurrences (filter plain_key names)"
      "set js = set (filter is_array_index names)" "ascending_indices js"
    unfolding assms by blast
  have "\<forall>x\<in>set (first_occurrences (filter plain_key names)). \<not> is_array_index x"
    by (auto simp: first_occurrences_set plain_key_def)
  then have n: "filter is_array_index (first_occurrences (filter plain_key names)) = []"
    by (simp add: filter_empty_conv)
  have "\<forall>x\<in>set js. is_array_index x"
    using js(3) by (simp add: ascending_indices_def list_all_iff)
  then have "filter is_array_index js = js" by (simp add: filter_id_conv)
  with n have e: "filter is_array_index ks = js" by (simp add: js(1))
  show "ks = filter is_array_index ks @ first_occurrences (filter plain_key names)"
    unfolding e by (rule js(1))
  show "ascending_indices (filter is_array_index ks)" unfolding e by (rule js(3))
  show "set (filter is_array_index ks) = set (filter is_array_index names)"
    unfolding e by (rule js(2))
  have "''__proto__'' \<notin> set js" using js(2) not_index_proto by auto
  moreover have "''__proto__'' \<notin> set (first_occurrences (filter plain_key names))"
    by (simp add: first_occurrences_set plain_key_def)
  ultimately show "''__proto__'' \<notin> set ks" by (simp add: js(1))
qed

lemma keys_parseConfig:
  "map fst (config (parseConfig content v)) = foldl add_key [] (header_names (logical_text content))"
proof -
  let ?init = "\<lparr>cfg = [], currentSection = None, currentSectionData = [], errs = []\<rparr>"
  have "open_list ?init = []" by (simp add: open_list_def open_section_def)
  with keys_run_lines_all [of v ?init] show ?thesis
    by (simp add: config_parseConfig logical_text_def)
qed

text \<open>
  Claim C1, as the code has it. The document maps every header name (not empty, not
  \<open>__proto__\<close>) to exactly the data gathered under the last header of that name, and
  within a section the last value stored under a key is the one kept. The sections
  whose names are array indices stand first, in ascending numeric order; the other
  sections follow, in the order in which each name's header first appeared. A header
  named \<open>__proto__\<close> creates no section.
\<close>

theorem duplicate_sections_last_wins:
  "(logical_text content = pre @ [h] @ body @ post
      \<and> header_name h = Some name \<and> name \<noteq> [] \<and> name \<noteq> ''__proto__''
      \<and> list_all (\<lambda>l. section_match l = None) body
      \<and> (post = [] \<or> section_match (hd post) \<noteq> None)
      \<and> list_all (\<lambda>l. header_name l \<noteq> Some name) post
    \<longrightarrow> map_of (config (parseConfig content v)) name = Some (foldl store_kv [] body))
   \<and> (kv_match l = Some (k, x) \<and> js_trim k \<noteq> [] \<and> js_trim k \<noteq> ''__proto__''
       \<and> list_all (\<lambda>l. stored_key l \<noteq> Some (js_trim k)) b2
    \<longrightarrow> map_of (foldl store_kv d (b1 @ [l] @ b2)) (js_trim k) = Some (parseValue (js_trim x)))
   \<and> map fst (config (parseConfig content v))
       = filter is_array_index (map fst (config (parseConfig content v)))
         @ first_occurrences (filter plain_key (header_names (logical_text content)))
   \<and> ascending_indices (filter is_array_index (map fst (config (parseConfig content v))))
   \<and> set (filter is_array_index (map fst (config (parseConfig content v))))
       = set (filter is_array_index (header_names (logical_text content)))
   \<and> ''__proto__'' \<notin> set (map fst (config (parseConfig content v)))"
proof (intro conjI impI)
  assume "logical_text content = pre @ [h] @ body @ post
      \<and> header_name h = Some name \<and> name \<noteq> [] \<and> name \<noteq> ''__proto__''
      \<and> list_all (\<lambda>l. section_match l = None) body
      \<and> (post = [] \<or> section_match (hd post) \<noteq> None)
      \<and> list_all (\<lambda>l. header_name l \<noteq> Some name) post"
  then have "map snd (logical_lines 0 (js_split NL (fst (extractIncludes content)))) = pre @ [h] @ body @ post"
    and "header_name h = Some name" and "name \<noteq> []" and "name \<noteq> ''__proto__''"
    and "list_all (\<lambda>l. section_match l = None) body"
    and "post = [] \<or> section_match (hd post) \<noteq> None"
    and "list_all (\<lambda>l. header_name l \<noteq> Some name) post"
    by (simp_all add: logical_text_def)
  from last_section_wins [OF this]
  show "map_of (config (parseConfig content v)) name = Some (foldl store_kv [] body)"
    by (simp only: config_parseConfig)
next
  assume "kv_match l = Some (k, x) \<and> js_trim k \<noteq> [] \<and> js_trim k \<noteq> ''__proto__''
       \<and> list_all (\<lambda>l. stored_key l \<noteq> Some (js_trim k)) b2"
  then have "kv_match l = Some (k, x)" and "js_trim k \<noteq> []" and "js_trim k \<noteq> ''__proto__''"
    and "list_all (\<lambda>l. stored_key l \<noteq> Some (js_trim k)) b2"
    by blast+
  then show "map_of (foldl store_kv d (b1 @ [l] @ b2)) (js_trim k) = Some (parseValue (js_trim x))"
    by (rule last_key_wins)
next
  show "map fst (config (parseConfig content v))
       = filter is_array_index (map fst (config (parseConfig content v)))
         @ first_occurrences (filter plain_key (header_names (logical_text content)))"
    by (rule key_order(1)) (rule keys_parseConfig)
next
  show "ascending_indices (filter is_array_index (map fst (config (parseConfig content v))))"
    by (rule key_order(2)) (rule keys_parseConfig)
next
  show "set (filter is_array_index (map fst (config (parseConfig content v))))
       = set (filter is_array_index (header_names (logical_text content)))"
    by (rule key_order(3)) (rule keys_parseConfig)
next
  show "''__proto__'' \<notin> set (map fst (config (parseConfig content v)))"
    by (rule key_order(4)) (rule keys_parseConfig)
qed

theorem duplicate_sections_last_wins_witness:
  "logical_text (''[a]'' @ [NL] @ ''x: p'' @ [NL] @ ''[b]'' @ [NL] @ ''[a]'' @ [NL] @ ''y: on'' @ [NL]
        @ ''y: off'' @ [NL] @ ''[1]'' @ [NL] @ ''z: q'')
      = [''[a]'', ''x: p'', ''[b]''] @ [''[a]''] @ [''y: on'', ''y: off''] @ [''[1]'', ''z: q'']
   \<and> header_name ''[a]'' = Some ''a'' \<and> ''a'' \<noteq> [] \<and> ''a'' \<noteq> ''__proto__''
   \<and> list_all (\<lambda>l. section_match l = None) [''y: on'', ''y: off'']
   \<and> section_match (hd [''[1]'', ''z: q'']) \<noteq> None
   \<and> list_all (\<lambda>l. header_name l \<noteq> Some ''a'') [''[1]'', ''z: q'']
   \<and> map_of (config (parseConfig
        (''[a]'' @ [NL] @ ''x: p'' @ [NL] @ ''[b]'' @ [NL] @ ''[a]'' @ [NL] @ ''y: on'' @ [NL]
           @ ''y: off'' @ [NL] @ ''[1]'' @ [NL] @ ''z: q'') True)) ''a''
      = Some [(''y'', VStr ''off'')]
   \<and> kv_match ''y: on'' = Some (''y'', ''on'') \<and> js_trim ''y'' \<noteq> [] \<and> js_trim ''y'' \<noteq> ''__proto__''
   \<and> list_all (\<lambda>l. stored_key l \<noteq> Some (js_trim ''y'')) [''w: u'']
   \<and> map_of (foldl store_kv [] ([''y: off''] @ [''y: on''] @ [''w: u''])) (js_trim ''y'') = Some (VStr ''on'')
   \<and> map fst (config (parseConfig
        (''[a]'' @ [NL] @ ''x: p'' @ [NL] @ ''[b]'' @ [NL] @ ''[a]'' @ [NL] @ ''y: on'' @ [NL]
           @ ''y: off'' @ [NL] @ ''[1]'' @ [NL] @ ''z: q'') True))
      = [''1'', ''a'', ''b'']"
proof -
  let ?c = "''[a]'' @ [NL] @ ''x: p'' @ [NL] @ ''[b]'' @ [NL] @ ''[a]'' @ [NL] @ ''y: on'' @ [NL]
        @ ''y: off'' @ [NL] @ ''[1]'' @ [NL] @ ''z: q''"
  have lt: "logical_text ?c = [''[a]'', ''x: p'', ''[b]''] @ [''[a]''] @ [''y: on'', ''y: off''] @ [''[1]'', ''z: q'']"
    by code_simp
  have h: "header_name ''[a]'' = Some ''a''" by code_simp
  have n: "''a'' \<noteq> []" "''a'' \<noteq> ''__proto__''" by simp_all
  have b: "list_all (\<lambda>l. section_match l = None) [''y: on'', ''y: off'']" by code_simp
  have q: "section_match (hd [''[1]'', ''z: q'']) \<noteq> None" by code_simp
  have p: "list_all (\<lambda>l. header_name l \<noteq> Some ''a'') [''[1]'', ''z: q'']" by code_simp
  have d: "foldl store_kv [] [''y: on'', ''y: off''] = [(''y'', VStr ''off'')]" by code_simp
  have kv: "kv_match ''y: on'' = Some (''y'', ''on'')" by code_simp
  have t: "js_trim ''y'' \<noteq> []" "js_trim ''y'' \<noteq> ''__proto__''" by code_simp+
  have s: "list_all (\<lambda>l. stored_key l \<noteq> Some (js_trim ''y'')) [''w: u'']" by code_simp
  have pv: "parseValue (js_trim ''on'') = VStr ''on''" by code_simp
  have ks: "map fst (config (parseConfig ?c True)) = [''1'', ''a'', ''b'']" by code_simp
  note inst = duplicate_sections_last_wins [where content = ?c and pre = "[''[a]'', ''x: p'', ''[b]'']"
      and h = "''[a]''" and body = "[''y: on'', ''y: off'']" and post = "[''[1]'', ''z: q'']"
      and name = "''a''" and v = True and l = "''y: on''" and k = "''y''" and x = "''on''"
      and ?b2.0 = "[''w: u'']" and d = "[]" and ?b1.0 = "[''y: off'']"]
  from inst lt h n b q p have 1: "map_of (config (parseConfig ?c True)) ''a'' = Some [(''y'', VStr ''off'')]"
    unfolding d by blast
  from inst kv t s have 2: "map_of (foldl store_kv [] ([''y: off''] @ [''y: on''] @ [''w: u''])) (js_trim ''y'') = Some (VStr ''on'')"
    unfolding pv by blast
  from lt h n b q p 1 kv t s 2 ks show ?thesis by blast
qed

theorem section_order_counterexample:
  "map fst (config (parseConfig (''[a]'' @ [NL] @ ''[b]'' @ [NL] @ ''[a]'') True)) = [''a'', ''b'']
   \<and> remdups (header_names (logical_text (''[a]'' @ [NL] @ ''[b]'' @ [NL] @ ''[a]''))) = [''b'', ''a'']"
  by code_simp

section \<open>Serialization and re-parsing\<close>

text \<open>The lines that \<open>formatConfig\<close> writes.\<close>

definition inc_line :: "string \<Rightarrow> string" where
  "inc_line i = ''[include '' @ i @ '']''"

definition header_line :: "string \<Rightarrow> string" where
  "header_line n = ''['' @ n @ '']''"

definition render :: "(rat \<Rightarrow> string) \<Rightarrow> jsvalue \<Rightarrow> string" where
  "render ns x = (case x of VList xs \<Rightarrow> js_join '', '' (map (js_to_string ns) xs) | _ \<Rightarrow> js_to_string ns x)"

definition entry_line :: "(rat \<Rightarrow> string) \<Rightarrow> string \<times> jsvalue \<Rightarrow> string" where
  "entry_line ns e = fst e @ '': '' @ render ns (snd e)"

lemma format_entry_line: "format_entry ns e = entry_line ns e @ [NL]"
  by (cases e; cases "snd e") (auto simp: format_entry_def entry_line_def render_def)

text \<open>
  The documents and include lists for which serialization can be read back. Names and
  keys are trimmed single-line texts that the scanner reads as what they are. A boolean,
  number or string must be written as a trimmed single-line text that inference gives
  back (the empty string is one); a list holds at least two such values. The text of a
  value, the last one for a list, does not end in a backslash. The keys of the
  document and of each section stand in the order in which an object enumerates them.
\<close>

definition no_line_term :: "string \<Rightarrow> bool" where
  "no_line_term s = (\<not> list_ex is_line_term s)"

definition include_like :: "string \<Rightarrow> bool" where
  "include_like n = (case strip_prefix ''include'' n of Some (c # r) \<Rightarrow> is_space c | _ \<Rightarrow> False)"

definition safe_include :: "string \<Rightarrow> bool" where
  "safe_include i = (i \<noteq> [] \<and> js_trim i = i \<and> no_line_term i)"

definition safe_name :: "string \<Rightarrow> bool" where
  "safe_name n = (n \<noteq> [] \<and> js_trim n = n \<and> CHR '']'' \<notin> set n \<and> no_line_term n
                  \<and> \<not> include_like n)"

definition safe_key :: "string \<Rightarrow> bool" where
  "safe_key k = (k \<noteq> [] \<and> js_trim k = k \<and> \<not> list_ex is_sep k \<and> no_line_term k
                 \<and> hd k \<noteq> CHR ''['' \<and> hd k \<noteq> CHR ''#'')"

definition inferred_back :: "(rat \<Rightarrow> string) \<Rightarrow> jsvalue \<Rightarrow> bool" where
  "inferred_back ns x =
     (case x of
        VList xs \<Rightarrow> False
      | _ \<Rightarrow> (let t = js_to_string ns x
              in js_trim t = t \<and> no_line_term t \<and> parseValue t = x))"

definition no_final_backslash :: "string \<Rightarrow> bool" where
  "no_final_backslash t = (t = [] \<or> last t \<noteq> BSL)"

definition safe_value :: "(rat \<Rightarrow> string) \<Rightarrow> jsvalue \<Rightarrow> bool" where
  "safe_value ns x =
     (case x of
        VList xs \<Rightarrow> 2 \<le> length xs \<and> list_all (inferred_back ns) xs
                     \<and> no_final_backslash (js_to_string ns (last xs))
      | _ \<Rightarrow> inferred_back ns x \<and> no_final_backslash (js_to_string ns x))"

definition key_before :: "string \<Rightarrow> string \<Rightarrow> bool" where
  "key_before a b =
     (a \<noteq> b \<and> (\<not> is_array_index b
                 \<or> (is_array_index a \<and> digits_value 10 a < digits_value 10 b)))"

definition js_ordered :: "string list \<Rightarrow> bool" where
  "js_ordered ks = (sorted_wrt key_before ks \<and> ''__proto__'' \<notin> set ks)"

lemma not_space_chars [simp]:
  "\<not> is_space (CHR ''['')" "\<not> is_space (CHR '']'')" "\<not> is_space (CHR '':'')"
  "\<not> is_space BSL" "\<not> is_space (CHR ''#'')" "is_space (CHR '' '')" "is_space NL"
  by (simp_all add: is_space_def)

lemma not_line_term_chars [simp]:
  "\<not> is_line_term (CHR ''['')" "\<not> is_line_term (CHR '']'')" "\<not> is_line_term (CHR '':'')"
  "\<not> is_line_term (CHR '' '')" "is_line_term NL"
  by (simp_all add: is_line_term_def)

lemma line_term_is_space: "is_line_term c \<Longrightarrow> is_space c"
  by (auto simp: is_line_term_def is_space_def)

lemma comment_test_False:
  "s \<noteq> [] \<Longrightarrow> \<not> is_space (hd s) \<Longrightarrow> hd s \<noteq> CHR ''#'' \<Longrightarrow> \<not> comment_test s"
  by (cases s) (simp_all add: comment_test_def)

lemma continuation_strip_None:
  assumes "s \<noteq> []" and "\<not> is_space (last s)" and "last s \<noteq> BSL"
  shows "continuation_strip s = None"
proof -
  have "rev s = rev (butlast s @ [last s])" using assms(1) by simp
  also have "\<dots> = last s # rev (butlast s)" by simp
  finally have r: "rev s = last s # rev (butlast s)" .
  have "dropWhile is_space (rev s) = last s # rev (butlast s)"
    unfolding r using assms(2) by simp
  then show ?thesis using assms(3) by (simp add: continuation_strip_def)
qed

lemma takeWhile_stop:
  "\<forall>x\<in>set xs. P x \<Longrightarrow> \<not> P y \<Longrightarrow> takeWhile P (xs @ y # ys) = xs"
  by (induction xs) auto

lemma dropWhile_stop:
  "\<forall>x\<in>set xs. P x \<Longrightarrow> \<not> P y \<Longrightarrow> dropWhile P (xs @ y # ys) = y # ys"
  by (induction xs) auto

lemma not_blank: "s \<noteq> [] \<Longrightarrow> \<not> is_space (hd s) \<Longrightarrow> js_trim s \<noteq> []"
  by (cases s) (simp_all add: js_trim_Nil_iff)

text \<open>
  A text that holds a comma is neither a boolean nor a number, so it is inferred as the
  list of its pieces; a list of comma-free texts joined with \<open>, \<close> is split back into
  them, each but the first with one leading space, which trimming removes.
\<close>

lemma digit_not_comma: "is_digit c \<Longrightarrow> c \<noteq> CHR '',''"
  by (auto simp: is_digit_def)

lemma exponent_part_no_comma:
  assumes "exponent_part r = Some ex"
  shows "CHR '','' \<notin> set r"
proof (cases r)
  case Nil
  then show ?thesis by simp
next
  case (Cons e r1)
  with assms have e: "e = CHR ''e'' \<or> e = CHR ''E''"
    by (auto simp: exponent_part_def split: if_splits)
  show ?thesis
  proof (cases r1)
    case Nil
    with Cons assms e show ?thesis by (auto simp: exponent_part_def)
  next
    case r1: (Cons s r2)
    define ds where "ds = (if s = CHR ''+'' \<or> s = CHR ''-'' then r2 else r1)"
    from assms e have "list_all is_digit ds"
      by (auto simp: exponent_part_def Cons r1 ds_def Let_def split: if_splits)
    then have "CHR '','' \<notin> set ds"
      using digit_not_comma by (auto simp: list_all_iff)
    then have "CHR '','' \<notin> set r1"
      by (auto simp: ds_def r1 split: if_splits)
    with e show ?thesis by (auto simp: Cons)
  qed
qed

lemma takeWhile_digit_no_comma: "CHR '','' \<notin> set (takeWhile is_digit u)"
  using digit_not_comma by (auto dest: set_takeWhileD)

lemma str_decimal_no_comma:
  assumes "str_decimal r = Some res"
  shows "CHR '','' \<notin> set r"
proof -
  obtain neg u where su:
    "(case r of [] \<Rightarrow> (False, [])
      | s # r' \<Rightarrow> if s = CHR ''+'' then (False, r') else if s = CHR ''-'' then (True, r') else (False, r))
     = (neg, u)"
    by fastforce
  have ru: "CHR '','' \<notin> set u \<Longrightarrow> CHR '','' \<notin> set r"
    using su by (cases r) (auto split: if_splits)
  show ?thesis
  proof (cases "u = ''Infinity''")
    case True
    then show ?thesis by (intro ru) simp
  next
    case False
    define r1 where "r1 = dropWhile is_digit u"
    obtain fp r2 where fr:
      "(case r1 of [] \<Rightarrow> ([], r1)
        | p # rr \<Rightarrow> if p = CHR ''.'' then (takeWhile is_digit rr, dropWhile is_digit rr) else ([], r1))
       = (fp, r2)"
      by fastforce
    have "str_decimal r =
          (if takeWhile is_digit u = [] \<and> fp = [] then None
           else (case exponent_part r2 of
                   None \<Rightarrow> None
                 | Some ex \<Rightarrow> Some (neg, Some (of_int (digits_value 10 (takeWhile is_digit u @ fp))
                                              * pow10 (ex - int (length fp))))))"
      unfolding str_decimal_def su prod.case Let_def r1_def [symmetric] fr using False by simp
    with assms have "exponent_part r2 \<noteq> None"
      by (auto split: if_splits option.splits)
    then have c2: "CHR '','' \<notin> set r2" using exponent_part_no_comma by blast
    have c1: "CHR '','' \<notin> set r1"
    proof (cases r1)
      case Nil
      then show ?thesis by simp
    next
      case (Cons p rr)
      show ?thesis
      proof (cases "p = CHR ''.''")
        case True
        with fr Cons have r2: "r2 = dropWhile is_digit rr" by simp
        have "rr = takeWhile is_digit rr @ dropWhile is_digit rr" by simp
        then have "set rr = set (takeWhile is_digit rr) \<union> set r2"
          unfolding r2 by (metis set_append)
        then have "CHR '','' \<notin> set rr"
          using c2 takeWhile_digit_no_comma [of rr] by simp
        with True Cons show ?thesis by simp
      next
        case False
        with fr Cons have "r2 = r1" by simp
        with c2 show ?thesis by simp
      qed
    qed
    have "u = takeWhile is_digit u @ r1" by (simp add: r1_def)
    then have "set u = set (takeWhile is_digit u) \<union> set r1"
      by (metis set_append)
    then have "CHR '','' \<notin> set u"
      using c1 takeWhile_digit_no_comma [of u] by simp
    then show ?thesis by (rule ru)
  qed
qed

lemma radix_literal_no_comma:
  assumes "radix_literal r = Some n"
  shows "CHR '','' \<notin> set r"
proof -
  from assms obtain z x ds where r: "r = z # x # ds"
    by (auto simp: radix_literal_def split: list.splits)
  define base :: int where "base = (if x = CHR ''x'' \<or> x = CHR ''X'' then 16
                       else if x = CHR ''o'' \<or> x = CHR ''O'' then 8
                       else if x = CHR ''b'' \<or> x = CHR ''B'' then 2 else 0)"
  from assms have c: "z = CHR ''0'' \<and> base \<noteq> 0 \<and> ds \<noteq> [] \<and> list_all (\<lambda>d. digit_value d < base) ds"
    unfolding radix_literal_def r list.case Let_def base_def [symmetric]
    by (simp split: if_splits)
  have b: "base \<le> 16" by (simp add: base_def)
  have "digit_value (CHR '','') = 16" by (simp add: digit_value_def)
  with c b have "CHR '','' \<notin> set ds" by (auto simp: list_all_iff)
  moreover from c have "x \<noteq> CHR '',''" by (auto simp: base_def split: if_splits)
  ultimately show ?thesis using c by (simp add: r)
qed

lemma comma_not_number:
  assumes "CHR '','' \<in> set r" and "js_trim r = r"
  shows "js_Number r = NaN"
proof -
  from assms(1) have "r \<noteq> []" by auto
  moreover have "radix_literal r = None"
    using assms(1) radix_literal_no_comma by (cases "radix_literal r") auto
  moreover have "str_decimal r = None"
    using assms(1) str_decimal_no_comma by (cases "str_decimal r") auto
  ultimately show ?thesis
    using assms(2) by (simp add: js_Number_def Let_def)
qed

lemma comma_not_boolean:
  assumes "CHR '','' \<in> set r"
  shows "\<not> boolean_text r"
proof -
  have "lower_char (CHR '','') = CHR '',''" by (simp add: lower_char_def)
  with assms have "CHR '','' \<in> set (toLowerCase r)"
    by (force simp: toLowerCase_def)
  then show ?thesis by (auto simp: boolean_text_def)
qed

lemma parseValue_comma:
  assumes "CHR '','' \<in> set t" and "js_trim t = t"
  shows "parseValue t = VList (map (\<lambda>s. parseValue (js_trim s)) (js_split (CHR '','') t))"
proof -
  from assms(1) have "t \<noteq> []" by auto
  moreover have "\<not> boolean_text t" using assms(1) by (rule comma_not_boolean)
  moreover have "js_Number t = NaN" using assms by (rule comma_not_number)
  ultimately show ?thesis using assms(1) by (subst parseValue_unfold) simp
qed

lemma scalar_text_no_comma:
  assumes "parseValue t = x" and "js_trim t = t" and "\<And>xs. x \<noteq> VList xs"
  shows "CHR '','' \<notin> set t"
proof
  assume "CHR '','' \<in> set t"
  from parseValue_comma [OF this assms(2)] assms(1,3) show False by simp
qed

lemma js_split_no_sep: "d \<notin> set t \<Longrightarrow> js_split d t = [t]"
  by (induction t) auto

lemma js_split_append: "d \<notin> set t \<Longrightarrow> js_split d (t @ d # r) = t # js_split d r"
  by (induction t) auto

lemma js_split_join:
  "CHR '','' \<notin> set t0 \<Longrightarrow> \<forall>t\<in>set ts. CHR '','' \<notin> set t \<Longrightarrow>
   js_split (CHR '','') (js_join '', '' (t0 # ts)) = t0 # map ((#) (CHR '' '')) ts"
proof (induction ts arbitrary: t0)
  case Nil
  then show ?case by (simp add: js_split_no_sep)
next
  case (Cons t ts)
  have "js_join '', '' (t0 # t # ts) = t0 @ CHR '','' # CHR '' '' # js_join '', '' (t # ts)"
    by simp
  then have "js_split (CHR '','') (js_join '', '' (t0 # t # ts))
             = t0 # js_split (CHR '','') (CHR '' '' # js_join '', '' (t # ts))"
    using Cons.prems(1) by (simp add: js_split_append)
  also have "js_split (CHR '','') (CHR '' '' # js_join '', '' (t # ts))
             = (CHR '' '' # t) # map ((#) (CHR '' '')) ts"
    using Cons.IH [of t] Cons.prems(2) by simp
  finally show ?case by simp
qed

lemma js_trim_space_Cons: "is_space c \<Longrightarrow> js_trim t = t \<Longrightarrow> js_trim (c # t) = t"
  by (simp add: js_trim_def)

text \<open>Trimming at the right end only, and how trimming and splitting go together.\<close>

definition rstrip :: "string \<Rightarrow> string" where
  "rstrip s = rev (dropWhile is_space (rev s))"

lemma js_trim_rstrip: "js_trim s = rstrip (dropWhile is_space s)"
  by (simp add: js_trim_def rstrip_def)

lemma rstrip_Nil [simp]: "rstrip [] = []"
  by (simp add: rstrip_def)

lemma rstrip_spaces: "list_all is_space w \<Longrightarrow> rstrip (a @ w) = rstrip a"
  by (simp add: rstrip_def dropWhile_append list_all_iff)

lemma rstrip_decomp: "\<exists>w. list_all is_space w \<and> s = rstrip s @ w"
proof (intro exI conjI)
  show "list_all is_space (rev (takeWhile is_space (rev s)))"
    by (auto simp: list_all_iff dest: set_takeWhileD)
  have "rev (takeWhile is_space (rev s) @ dropWhile is_space (rev s)) = s"
    by (simp only: takeWhile_dropWhile_id rev_rev_ident)
  then show "s = rstrip s @ rev (takeWhile is_space (rev s))"
    by (simp only: rev_append rstrip_def)
qed

lemma rstrip_last: "rstrip s \<noteq> [] \<Longrightarrow> \<not> is_space (last (rstrip s))"
proof -
  assume "rstrip s \<noteq> []"
  then have n: "dropWhile is_space (rev s) \<noteq> []" by (simp add: rstrip_def)
  then have "\<not> is_space (hd (dropWhile is_space (rev s)))" by (rule hd_dropWhile)
  with n show ?thesis by (simp add: rstrip_def last_rev)
qed

lemma rstrip_id: "s = [] \<or> \<not> is_space (last s) \<Longrightarrow> rstrip s = s"
proof (cases "s = []")
  case True
  then show ?thesis by simp
next
  case False
  assume "s = [] \<or> \<not> is_space (last s)"
  with False have "\<not> is_space (last s)" by simp
  with False have "\<not> is_space (hd (rev s))" by (simp add: hd_rev)
  with False have "dropWhile is_space (rev s) = rev s" by (cases "rev s") simp_all
  then show ?thesis by (simp add: rstrip_def)
qed

lemma rstrip_append: "rstrip b \<noteq> [] \<Longrightarrow> rstrip (a @ b) = a @ rstrip b"
proof -
  assume "rstrip b \<noteq> []"
  then have "dropWhile is_space (rev b) \<noteq> []" by (simp add: rstrip_def)
  then have "\<not> (\<forall>x\<in>set (rev b). is_space x)" by (simp add: dropWhile_eq_Nil_conv)
  then have "dropWhile is_space (rev b @ rev a) = dropWhile is_space (rev b) @ rev a"
    by (auto simp: dropWhile_append)
  then show ?thesis by (simp add: rstrip_def)
qed

lemma rstrip_Cons: "\<not> is_space c \<Longrightarrow> rstrip (c # s) = c # rstrip s"
proof -
  assume c: "\<not> is_space c"
  then have "rstrip [c] = [c]" by (simp add: rstrip_def)
  have "rstrip (c # s) = c # rstrip s" if "rstrip s \<noteq> []"
    using rstrip_append [OF that, of "[c]"] by simp
  moreover have "rstrip (c # s) = [c]" if "rstrip s = []"
  proof -
    from that have "dropWhile is_space (rev s) = []" by (simp add: rstrip_def)
    then have "\<forall>x\<in>set (rev s). is_space x" by (simp add: dropWhile_eq_Nil_conv)
    then have "dropWhile is_space (rev s @ [c]) = [c]"
      using c by (simp add: dropWhile_append)
    then show ?thesis by (simp add: rstrip_def)
  qed
  ultimately show ?thesis by (cases "rstrip s = []") simp_all
qed

lemma set_rstrip: "set (rstrip s) \<subseteq> set s"
  by (auto simp: rstrip_def dest: set_dropWhileD)

lemma set_js_trim: "set (js_trim s) \<subseteq> set s"
  unfolding js_trim_rstrip using set_rstrip [of "dropWhile is_space s"]
  by (auto dest: set_dropWhileD)

lemma js_trim_spaces_right: "list_all is_space w \<Longrightarrow> js_trim (a @ w) = js_trim a"
proof (cases "\<forall>x\<in>set a. is_space x")
  case True
  assume "list_all is_space w"
  with True have d: "dropWhile is_space (a @ w) = []" "dropWhile is_space a = []"
    by (simp_all add: dropWhile_eq_Nil_conv list_all_iff)
  show ?thesis by (simp only: js_trim_rstrip d)
next
  case False
  assume w: "list_all is_space w"
  from False have "dropWhile is_space (a @ w) = dropWhile is_space a @ w"
    by (auto simp: dropWhile_append)
  then show ?thesis by (simp add: js_trim_rstrip rstrip_spaces [OF w])
qed

lemma js_trim_of_rstrip: "js_trim (rstrip s) = js_trim s"
proof -
  from rstrip_decomp [of s] obtain w where w: "list_all is_space w" and s: "s = rstrip s @ w"
    by blast
  from js_trim_spaces_right [OF w, of "rstrip s"] s show ?thesis by simp
qed

lemma js_trim_no_lead: "s = [] \<or> \<not> is_space (hd s) \<Longrightarrow> js_trim s = rstrip s"
proof -
  assume "s = [] \<or> \<not> is_space (hd s)"
  then have "dropWhile is_space s = s" by (cases s) auto
  then show ?thesis by (simp add: js_trim_rstrip)
qed

lemma js_trim_shape:
  assumes "js_trim s \<noteq> []"
  shows "\<not> is_space (hd (js_trim s))" and "\<not> is_space (last (js_trim s))"
    and "last (js_trim s) = hd (dropWhile is_space (rev s))"
proof -
  define u where "u = dropWhile is_space s"
  have t: "js_trim s = rstrip u" by (simp add: js_trim_rstrip u_def)
  with assms have r: "rstrip u \<noteq> []" by simp
  then have un: "u \<noteq> []" by auto
  from rstrip_decomp [of u] obtain w where w: "u = rstrip u @ w" by blast
  with r have "hd u = hd (rstrip u)" by (metis hd_append2)
  moreover have "\<not> is_space (hd u)" unfolding u_def using un [unfolded u_def] by (rule hd_dropWhile)
  ultimately show "\<not> is_space (hd (js_trim s))" by (simp add: t)
  show "\<not> is_space (last (js_trim s))" unfolding t using r by (rule rstrip_last)
  from r have d: "dropWhile is_space (rev u) \<noteq> []" by (simp add: rstrip_def)
  then have "\<not> (\<forall>x\<in>set (rev u). is_space x)" by (simp add: dropWhile_eq_Nil_conv)
  moreover have "rev s = rev u @ rev (takeWhile is_space s)"
    by (simp add: u_def flip: rev_append)
  ultimately have "dropWhile is_space (rev s) = dropWhile is_space (rev u) @ rev (takeWhile is_space s)"
    by (auto simp: dropWhile_append)
  with d have "hd (dropWhile is_space (rev s)) = hd (dropWhile is_space (rev u))" by simp
  also have "\<dots> = last (rstrip u)" using d by (simp add: rstrip_def last_rev)
  finally show "last (js_trim s) = hd (dropWhile is_space (rev s))" by (simp add: t)
qed

lemma js_trim_idem: "js_trim (js_trim s) = js_trim s"
proof (cases "js_trim s = []")
  case True
  show ?thesis unfolding True by (simp add: js_trim_def)
next
  case False
  from js_trim_shape(1,2) [OF False] False show ?thesis by (intro js_trim_ends)
qed

lemma js_split_suffix:
  "d \<notin> set w \<Longrightarrow> js_split d (a @ w) = butlast (js_split d a) @ [last (js_split d a) @ w]"
proof (induction a)
  case Nil
  then show ?case by (simp add: js_split_no_sep)
next
  case (Cons c a)
  obtain p ps where p: "js_split d a = p # ps"
    using js_split_not_Nil [of d a] by (cases "js_split d a") auto
  from Cons have ih: "js_split d (a @ w) = butlast (p # ps) @ [last (p # ps) @ w]"
    by (simp add: p)
  show ?case
  proof (cases "c = d")
    case True
    then show ?thesis by (simp add: ih p)
  next
    case False
    then show ?thesis by (cases ps) (simp_all add: ih p)
  qed
qed

lemma split_trim_right:
  assumes "\<not> is_space d" and "list_all is_space w"
  shows "map js_trim (js_split d (a @ w)) = map js_trim (js_split d a)"
proof -
  from assms have "d \<notin> set w" by (auto simp: list_all_iff)
  from js_split_suffix [OF this, of a]
  have "map js_trim (js_split d (a @ w))
        = map js_trim (butlast (js_split d a)) @ [js_trim (last (js_split d a) @ w)]"
    by simp
  also have "\<dots> = map js_trim (butlast (js_split d a) @ [last (js_split d a)])"
    by (simp add: js_trim_spaces_right [OF assms(2)])
  also have "\<dots> = map js_trim (js_split d a)"
    using js_split_not_Nil [of d a] by simp
  finally show ?thesis .
qed

lemma split_trim_rstrip:
  assumes "\<not> is_space d"
  shows "map js_trim (js_split d (rstrip s)) = map js_trim (js_split d s)"
proof -
  from rstrip_decomp [of s] obtain w where w: "list_all is_space w" and s: "s = rstrip s @ w"
    by blast
  from split_trim_right [OF assms w, of "rstrip s"] s show ?thesis by simp
qed

lemma js_join_snoc: "xs \<noteq> [] \<Longrightarrow> js_join sep (xs @ [y]) = js_join sep xs @ sep @ y"
  by (induction xs rule: induct_list012) simp_all

lemma set_js_join: "set (js_join sep ts) \<subseteq> set sep \<union> \<Union> (set ` set ts)"
  by (induction ts rule: induct_list012) auto

text \<open>What the conditions on a value give for the text written for it.\<close>

lemma inferred_back_text:
  assumes "inferred_back ns x"
  shows "js_trim (js_to_string ns x) = js_to_string ns x" and "no_line_term (js_to_string ns x)"
    and "parseValue (js_to_string ns x) = x" and "CHR '','' \<notin> set (js_to_string ns x)"
    and "render ns x = js_to_string ns x"
proof -
  from assms have nl: "\<And>xs. x \<noteq> VList xs" by (auto simp: inferred_back_def)
  from assms show a: "js_trim (js_to_string ns x) = js_to_string ns x"
    "no_line_term (js_to_string ns x)" "parseValue (js_to_string ns x) = x"
    by (cases x; simp add: inferred_back_def Let_def)+
  from scalar_text_no_comma [OF a(3) a(1) nl]
  show "CHR '','' \<notin> set (js_to_string ns x)" .
  from nl show "render ns x = js_to_string ns x" by (cases x) (auto simp: render_def)
qed

lemma trimmed_hd: "js_trim t = t \<Longrightarrow> t = [] \<or> \<not> is_space (hd t)"
  using trimmed_ends(1) [of t] by blast

lemma trimmed_last: "js_trim t = t \<Longrightarrow> t = [] \<or> \<not> is_space (last t)"
  using trimmed_ends(2) [of t] by blast

lemma safe_list_render:
  assumes "2 \<le> length xs" and "list_all (inferred_back ns) xs"
    and "no_final_backslash (js_to_string ns (last xs))"
  shows "no_line_term (render ns (VList xs))"
    and "render ns (VList xs) = [] \<or> \<not> is_space (hd (render ns (VList xs)))"
    and "parseValue (js_trim (render ns (VList xs))) = VList xs"
    and "js_trim (render ns (VList xs)) = [] \<or> last (js_trim (render ns (VList xs))) \<noteq> BSL"
proof -
  from assms(1) obtain x0 x1 ys where xs: "xs = x0 # x1 # ys"
    by (cases xs; cases "tl xs") auto
  define t0 where "t0 = js_to_string ns x0"
  define ts where "ts = map (js_to_string ns) (x1 # ys)"
  define r where "r = js_join '', '' (t0 # ts)"
  have rr: "render ns (VList xs) = r" by (simp add: render_def r_def t0_def ts_def xs)
  from assms(2) have s0: "inferred_back ns x0" and ss: "\<forall>y\<in>set (x1 # ys). inferred_back ns y"
    by (simp_all add: xs list_all_iff)
  note f0 = inferred_back_text [OF s0, folded t0_def]
  have nc: "\<forall>t\<in>set ts. CHR '','' \<notin> set t" using ss inferred_back_text(4) by (auto simp: ts_def)
  have tr: "\<forall>t\<in>set ts. js_trim t = t" using ss inferred_back_text(1) by (auto simp: ts_def)
  have nl: "\<forall>t\<in>set (t0 # ts). no_line_term t"
    using ss f0(2) inferred_back_text(2) by (auto simp: ts_def)
  have tsn: "ts \<noteq> []" by (simp add: ts_def)
  then obtain t1 ts' where ts': "ts = t1 # ts'" by (cases ts) auto
  have re: "r = t0 @ CHR '','' # CHR '' '' # js_join '', '' ts"
    by (simp add: r_def ts')
  have r1: "no_line_term r"
  proof -
    have "\<not> is_line_term c" if "c \<in> set r" for c
    proof -
      from that set_js_join [of "'', ''" "t0 # ts"]
      have "c \<in> set '', '' \<or> (\<exists>t\<in>set (t0 # ts). c \<in> set t)" unfolding r_def by blast
      then show ?thesis
      proof
        assume "c \<in> set '', ''"
        then show ?thesis by (auto simp: is_line_term_def)
      next
        assume "\<exists>t\<in>set (t0 # ts). c \<in> set t"
        then obtain t where "t \<in> set (t0 # ts)" "c \<in> set t" by blast
        with nl show ?thesis by (auto simp: no_line_term_def list_ex_iff)
      qed
    qed
    then show ?thesis by (auto simp: no_line_term_def list_ex_iff)
  qed
  have r2: "\<not> is_space (hd r)"
    using trimmed_hd [OF f0(1)] by (cases t0) (simp_all add: re is_space_def)
  have rne: "r \<noteq> []" by (simp add: re)
  have jt: "js_trim r = rstrip r" using r2 by (intro js_trim_no_lead) simp
  have cs: "\<not> is_space (CHR '','')" by (simp add: is_space_def)
  have c: "CHR '','' \<in> set (js_trim r)"
  proof -
    from rstrip_decomp [of r] obtain w where w: "list_all is_space w" and d: "r = rstrip r @ w"
      by blast
    have "CHR '','' \<in> set r" by (simp add: re)
    then have "CHR '','' \<in> set (rstrip r) \<or> CHR '','' \<in> set w"
      by (subst (asm) d) simp
    with w cs show ?thesis by (auto simp: jt list_all_iff)
  qed
  have sp: "js_split (CHR '','') r = t0 # map ((#) (CHR '' '')) ts"
    unfolding r_def by (rule js_split_join [OF f0(4) nc])
  have tt: "map js_trim (map ((#) (CHR '' '')) ts) = ts"
  proof -
    have "js_trim (CHR '' '' # t) = t" if "t \<in> set ts" for t
      using that tr by (intro js_trim_space_Cons) simp_all
    then have "map (\<lambda>t. js_trim (CHR '' '' # t)) ts = ts" by (simp only: map_idI)
    then show ?thesis by (simp only: map_map comp_def)
  qed
  have "map js_trim (js_split (CHR '','') (js_trim r)) = map js_trim (js_split (CHR '','') r)"
    unfolding jt by (rule split_trim_rstrip [OF cs])
  also have "\<dots> = t0 # ts" by (simp only: sp list.map f0(1) tt)
  finally have pieces: "map js_trim (js_split (CHR '','') (js_trim r)) = t0 # ts" .
  have "map parseValue (t0 # ts) = xs"
  proof -
    have "parseValue (js_to_string ns y) = y" if "y \<in> set (x1 # ys)" for y
      using that ss inferred_back_text(3) by blast
    then have "map (\<lambda>y. parseValue (js_to_string ns y)) (x1 # ys) = x1 # ys"
      by (simp only: map_idI)
    then show ?thesis by (simp add: ts_def xs f0(3) comp_def)
  qed
  moreover have "map (\<lambda>s. parseValue (js_trim s)) (js_split (CHR '','') (js_trim r))
                 = map parseValue (map js_trim (js_split (CHR '','') (js_trim r)))"
    by (simp add: comp_def)
  ultimately have r3: "parseValue (js_trim r) = VList xs"
    unfolding parseValue_comma [OF c js_trim_idem] by (simp only: pieces)
  have r4: "last (js_trim r) \<noteq> BSL"
  proof -
    define tn where "tn = js_to_string ns (last xs)"
    have la: "last (t0 # ts) = tn" by (simp add: tn_def ts_def t0_def xs last_map)
    have "t0 # ts = butlast (t0 # ts) @ [tn]" using la by (metis append_butlast_last_id list.discI)
    moreover have bn: "butlast (t0 # ts) \<noteq> []" using tsn by simp
    ultimately have d: "r = js_join '', '' (butlast (t0 # ts)) @ '', '' @ tn"
      unfolding r_def using js_join_snoc [OF bn, of "'', ''" tn] by simp
    have tnt: "js_trim tn = tn" using la tr f0(1) tsn by (metis last_in_set list.discI set_ConsD)
    show ?thesis
    proof (cases "tn = []")
      case True
      define a where "a = js_join '', '' (butlast (t0 # ts)) @ '',''"
      have "r = a @ '' ''" by (simp add: d True a_def)
      then have "rstrip r = rstrip a" by (simp add: rstrip_spaces)
      also have "\<dots> = a" by (rule rstrip_id) (simp add: a_def is_space_def)
      finally show ?thesis by (simp add: jt a_def)
    next
      case False
      with trimmed_last [OF tnt] have "\<not> is_space (last tn)" by simp
      moreover have "last r = last tn" using False by (simp add: d)
      ultimately have "rstrip r = r" by (intro rstrip_id) simp
      moreover from assms(3) False have "last tn \<noteq> BSL"
        by (simp add: no_final_backslash_def tn_def)
      ultimately show ?thesis using \<open>last r = last tn\<close> by (simp add: jt)
    qed
  qed
  from r1 r2 r3 r4 show "no_line_term (render ns (VList xs))"
    "render ns (VList xs) = [] \<or> \<not> is_space (hd (render ns (VList xs)))"
    "parseValue (js_trim (render ns (VList xs))) = VList xs"
    "js_trim (render ns (VList xs)) = [] \<or> last (js_trim (render ns (VList xs))) \<noteq> BSL"
    unfolding rr by blast+
qed

lemma safe_value_render:
  assumes "safe_value ns x"
  shows "no_line_term (render ns x)"
    and "render ns x = [] \<or> \<not> is_space (hd (render ns x))"
    and "parseValue (js_trim (render ns x)) = x"
    and "js_trim (render ns x) = [] \<or> last (js_trim (render ns x)) \<noteq> BSL"
proof -
  have "no_line_term (render ns x) \<and> (render ns x = [] \<or> \<not> is_space (hd (render ns x)))
        \<and> parseValue (js_trim (render ns x)) = x
        \<and> (js_trim (render ns x) = [] \<or> last (js_trim (render ns x)) \<noteq> BSL)"
  proof (cases "\<exists>xs. x = VList xs")
    case True
    then obtain xs where x: "x = VList xs" by blast
    with assms have "2 \<le> length xs" "list_all (inferred_back ns) xs"
      "no_final_backslash (js_to_string ns (last xs))"
      by (simp_all add: safe_value_def)
    from safe_list_render [OF this] show ?thesis unfolding x by blast
  next
    case False
    with assms have s: "inferred_back ns x" and b: "no_final_backslash (js_to_string ns x)"
      by (cases x; simp add: safe_value_def)+
    note t = inferred_back_text [OF s]
    from t(1) b trimmed_hd [OF t(1)] t(2,3) show ?thesis
      by (auto simp: t(5) no_final_backslash_def)
  qed
  then show "no_line_term (render ns x)"
    and "render ns x = [] \<or> \<not> is_space (hd (render ns x))"
    and "parseValue (js_trim (render ns x)) = x"
    and "js_trim (render ns x) = [] \<or> last (js_trim (render ns x)) \<noteq> BSL"
    by blast+
qed

text \<open>
  The lines that are read as the entry of a key and a value: the key, a separator, and
  a text on one line that is inferred as the value after trimming and does not end in
  a backslash. The line written for an entry is one, and so is what is left of it when
  the white space at its end is removed.
\<close>

definition entry_form :: "string \<Rightarrow> jsvalue \<Rightarrow> string \<Rightarrow> bool" where
  "entry_form k x l \<longleftrightarrow>
     (\<exists>s. l = k @ CHR '':'' # s \<and> no_line_term s \<and> parseValue (js_trim s) = x
          \<and> (js_trim s = [] \<or> last (js_trim s) \<noteq> BSL))"

lemma js_trim_space_lead: "is_space c \<Longrightarrow> js_trim (c # s) = js_trim s"
  by (simp add: js_trim_def)

lemma entry_form_line:
  assumes "safe_value ns x"
  shows "entry_form k x (entry_line ns (k, x))"
proof -
  note r = safe_value_render [OF assms]
  have t: "js_trim (CHR '' '' # render ns x) = js_trim (render ns x)"
    by (rule js_trim_space_lead) simp
  have "entry_line ns (k, x) = k @ CHR '':'' # (CHR '' '' # render ns x)"
    by (simp add: entry_line_def)
  moreover have "no_line_term (CHR '' '' # render ns x)"
    using r(1) by (simp add: no_line_term_def)
  ultimately show ?thesis
    unfolding entry_form_def using r(3,4) t by (intro exI [of _ "CHR '' '' # render ns x"]) simp
qed

lemma entry_form_rstrip:
  assumes "entry_form k x l"
  shows "entry_form k x (rstrip l)"
proof -
  from assms obtain s where l: "l = k @ CHR '':'' # s" and n: "no_line_term s"
    and p: "parseValue (js_trim s) = x" and b: "js_trim s = [] \<or> last (js_trim s) \<noteq> BSL"
    unfolding entry_form_def by blast
  have c: "rstrip (CHR '':'' # s) = CHR '':'' # rstrip s" by (rule rstrip_Cons) simp
  then have "rstrip (k @ CHR '':'' # s) = k @ CHR '':'' # rstrip s"
    using rstrip_append [of "CHR '':'' # s" k] by simp
  moreover have "no_line_term (rstrip s)"
    using n set_rstrip [of s] by (auto simp: no_line_term_def list_ex_iff)
  ultimately show ?thesis
    unfolding entry_form_def l using p b
    by (intro exI [of _ "rstrip s"]) (simp add: js_trim_of_rstrip)
qed

lemma entry_form_facts:
  assumes "safe_key k" and "entry_form k x l"
  shows "section_match l = None"
    and "store_kv d l = js_set d k x"
    and "\<not> comment_test l"
    and "js_trim l \<noteq> []"
    and "continuation_strip l = None"
    and "no_line_term l"
    and "l \<noteq> []"
    and "hd l \<noteq> CHR ''[''"
    and "\<not> is_space (hd l)"
proof -
  from assms(2) obtain s where l: "l = k @ CHR '':'' # s" and n: "no_line_term s"
    and p: "parseValue (js_trim s) = x" and b: "js_trim s = [] \<or> last (js_trim s) \<noteq> BSL"
    unfolding entry_form_def by blast
  from assms(1) have k: "k \<noteq> []" "js_trim k = k" "\<forall>c\<in>set k. \<not> is_sep c" "no_line_term k"
    "hd k \<noteq> CHR ''[''" "hd k \<noteq> CHR ''#''"
    by (simp_all add: safe_key_def list_ex_iff)
  have hk: "hd l = hd k" using k(1) by (simp add: l)
  note tk = trimmed_ends [OF k(2) k(1)]
  show "section_match l = None"
    unfolding l using k(1,5) by (cases k) (simp_all add: section_match_def Let_def)
  have t: "takeWhile (\<lambda>c. \<not> is_sep c) (k @ CHR '':'' # s) = k"
    and d: "dropWhile (\<lambda>c. \<not> is_sep c) (k @ CHR '':'' # s) = CHR '':'' # s"
    using k(3) by (auto intro!: takeWhile_stop dropWhile_stop simp: is_sep_def)
  have "\<not> list_ex is_line_term (dropWhile is_space s)"
    using n by (auto simp: no_line_term_def list_ex_iff dest: set_dropWhileD)
  then have kv: "kv_match l = Some (k, dropWhile is_space s)"
    unfolding l kv_match_def t d Let_def using k(1) by simp
  have "js_trim (dropWhile is_space s) = js_trim s"
    by (simp add: js_trim_def)
  with kv show "store_kv d l = js_set d k x"
    using k(1,2) p by (simp add: store_kv_def)
  have lne: "l \<noteq> []" by (simp add: l)
  have h1: "\<not> is_space (hd l)" unfolding hk by (rule tk(1))
  have h2: "hd l \<noteq> CHR ''#''" unfolding hk by (rule k(6))
  show "\<not> comment_test l" by (rule comment_test_False [OF lne h1 h2])
  show "js_trim l \<noteq> []" by (rule not_blank [OF lne h1])
  show "continuation_strip l = None"
  proof (cases "js_trim s = []")
    case True
    then have "\<forall>x\<in>set (rev s). is_space x" by (simp add: js_trim_Nil_iff list_all_iff)
    then have "dropWhile is_space (rev s @ CHR '':'' # rev k) = CHR '':'' # rev k"
      by (simp add: dropWhile_append)
    then show ?thesis by (simp add: continuation_strip_def l)
  next
    case False
    then have "\<not> (\<forall>x\<in>set (rev s). is_space x)" by (simp add: js_trim_Nil_iff list_all_iff)
    then have e: "dropWhile is_space (rev s @ CHR '':'' # rev k)
                  = dropWhile is_space (rev s) @ CHR '':'' # rev k"
      and ne: "dropWhile is_space (rev s) \<noteq> []"
      by (auto simp: dropWhile_append dropWhile_eq_Nil_conv)
    from js_trim_shape(3) [OF False] b False have "hd (dropWhile is_space (rev s)) \<noteq> BSL"
      by simp
    with ne show ?thesis
      by (cases "dropWhile is_space (rev s)") (simp_all add: continuation_strip_def l e)
  qed
  show "no_line_term l"
    using k(4) n by (simp add: l no_line_term_def)
  show "l \<noteq> []" by (rule lne)
  show "hd l \<noteq> CHR ''[''" unfolding hk by (rule k(5))
  show "\<not> is_space (hd l)" by (rule h1)
qed

lemma header_line_facts:
  assumes "safe_name n"
  shows "section_match (header_line n) = Some n"
    and "\<not> comment_test (header_line n)"
    and "js_trim (header_line n) \<noteq> []"
    and "continuation_strip (header_line n) = None"
    and "no_line_term (header_line n)"
    and "header_line n \<noteq> []"
    and "rstrip (header_line n) = header_line n"
    and "\<not> is_space (hd (header_line n))"
proof -
  from assms have n: "n \<noteq> []" "CHR '']'' \<notin> set n" "no_line_term n"
    by (simp_all add: safe_name_def)
  from n(2) have t: "takeWhile (\<lambda>c. c \<noteq> CHR '']'') (n @ '']'') = n"
    and d: "dropWhile (\<lambda>c. c \<noteq> CHR '']'') (n @ '']'') = '']''"
    by (auto intro!: takeWhile_stop dropWhile_stop)
  show "section_match (header_line n) = Some n"
    using n(1) by (simp add: section_match_def header_line_def t d Let_def)
  show "\<not> comment_test (header_line n)"
    by (rule comment_test_False) (simp_all add: header_line_def)
  show "js_trim (header_line n) \<noteq> []"
    by (rule not_blank) (simp_all add: header_line_def)
  show "continuation_strip (header_line n) = None"
    by (rule continuation_strip_None) (simp_all add: header_line_def)
  show "no_line_term (header_line n)"
    using n(3) by (simp add: no_line_term_def header_line_def)
  show "header_line n \<noteq> []" by (simp add: header_line_def)
  show "rstrip (header_line n) = header_line n"
    by (rule rstrip_id) (simp add: header_line_def)
  show "\<not> is_space (hd (header_line n))" by (simp add: header_line_def)
qed

lemma strip_prefix_append: "strip_prefix p (p @ r) = Some r"
  by (induction p) simp_all

lemma strip_prefix_bracket:
  "strip_prefix p (n @ CHR '']'' # rest) = Some r \<Longrightarrow> CHR '']'' \<notin> set p \<Longrightarrow>
   \<exists>n'. n = p @ n' \<and> r = n' @ CHR '']'' # rest"
proof (induction p arbitrary: n)
  case Nil
  then show ?case by simp
next
  case (Cons a p)
  show ?case
  proof (cases n)
    case Nil
    with Cons.prems show ?thesis by (simp split: if_splits)
  next
    case (Cons c n'')
    with Cons.prems Cons.IH [of n''] show ?thesis by (auto split: if_splits)
  qed
qed

lemma include_match_not_bracket:
  "s = [] \<or> hd s \<noteq> CHR ''['' \<Longrightarrow> include_match_at s = None"
  by (cases s) (auto simp: include_match_at_def)

lemma include_match_header:
  assumes "safe_name n"
  shows "include_match_at (header_line n @ rest) = None"
proof (cases "strip_prefix ''include'' (n @ CHR '']'' # rest)")
  case None
  then show ?thesis by (simp add: include_match_at_def header_line_def)
next
  case (Some r)
  from strip_prefix_bracket [OF Some] obtain n' where n: "n = ''include'' @ n'"
    and r: "r = n' @ CHR '']'' # rest"
    by auto
  have "strip_prefix ''include'' n = Some n'"
    unfolding n by (rule strip_prefix_append)
  with assms have "n' = [] \<or> \<not> is_space (hd n')"
    by (cases n') (simp_all add: safe_name_def include_like_def)
  then have "takeWhile is_space r = []"
    unfolding r by (cases n') auto
  with Some show ?thesis
    by (simp add: include_match_at_def header_line_def)
qed

lemma ws_then_eol_None:
  "(\<And>j. j \<le> t \<Longrightarrow> \<not> at_eol (drop j s)) \<Longrightarrow> ws_then_eol t s = None"
proof (induction t)
  case 0
  from 0 [of 0] show ?case by simp
next
  case (Suc t)
  from Suc.prems [of "Suc t"] have "\<not> at_eol (drop (Suc t) s)" by simp
  moreover have "ws_then_eol t s = None"
    by (rule Suc.IH) (simp add: Suc.prems)
  ultimately show ?case by simp
qed

lemma takeWhile_skip:
  "\<not> P y \<Longrightarrow> takeWhile P (xs @ y # ys) = takeWhile P xs"
  by (induction xs) auto

lemma include_tail_inner:
  assumes "no_line_term b"
  shows "include_tail (b @ CHR '']'' # rest) = None"
  unfolding include_tail_def
proof (rule ws_then_eol_None)
  fix j
  assume j: "j \<le> length (takeWhile is_space (b @ CHR '']'' # rest))"
  have "takeWhile is_space (b @ CHR '']'' # rest) = takeWhile is_space b"
    by (rule takeWhile_skip) simp
  with j have "j \<le> length b" using length_takeWhile_le [of is_space b] by simp
  then have d: "drop j (b @ CHR '']'' # rest) = drop j b @ CHR '']'' # rest" by simp
  show "\<not> at_eol (drop j (b @ CHR '']'' # rest))"
  proof (cases "drop j b")
    case Nil
    show ?thesis
      by (simp only: d Nil append_Nil at_eol_def list.case not_line_term_chars not_False_eq_True)
  next
    case (Cons c cs)
    then have "c \<in> set b" by (metis in_set_dropD list.set_intros(1))
    with assms have "\<not> is_line_term c" by (simp add: no_line_term_def list_ex_iff)
    then show ?thesis
      by (simp only: d Cons append_Cons at_eol_def list.case not_False_eq_True)
  qed
qed

lemma dot_lazy_line:
  assumes "no_line_term j" and "include_tail rest = Some rest'"
  shows "dot_lazy acc (j @ CHR '']'' # rest) = Some (acc @ j, rest')"
  using assms(1)
proof (induction j arbitrary: acc)
  case Nil
  then show ?case by (simp add: assms(2))
next
  case (Cons c j)
  from Cons.prems have nl: "\<not> is_line_term c" and nj: "no_line_term j"
    by (simp_all add: no_line_term_def)
  have "(if c = CHR '']'' then include_tail (j @ CHR '']'' # rest) else None) = None"
    by (simp add: include_tail_inner [OF nj])
  then have "dot_lazy acc ((c # j) @ CHR '']'' # rest) = dot_lazy (acc @ [c]) (j @ CHR '']'' # rest)"
    using nl by simp
  with Cons.IH [OF nj, of "acc @ [c]"] show ?case by simp
qed

lemma include_match_inc:
  assumes "safe_include i" and "include_tail rest = Some rest'"
  shows "include_match_at (inc_line i @ rest) = Some (i, rest')"
proof -
  from assms(1) have i: "i \<noteq> []" "js_trim i = i" "no_line_term i"
    by (simp_all add: safe_include_def)
  obtain c j where cj: "i = c # j" using i(1) by (cases i) auto
  from trimmed_ends [OF i(2) i(1)] cj have sp: "\<not> is_space c" by simp
  from i(3) cj have nl: "\<not> is_line_term c" "no_line_term j"
    by (simp_all add: no_line_term_def)
  have s: "strip_prefix ''[include'' (inc_line i @ rest) = Some (CHR '' '' # c # j @ CHR '']'' # rest)"
    by (simp add: inc_line_def cj)
  have t: "takeWhile is_space (CHR '' '' # c # j @ CHR '']'' # rest) = '' ''"
    using sp by simp
  have "dot_start (c # j @ CHR '']'' # rest) = Some (i, rest')"
    using nl(1) dot_lazy_line [OF nl(2) assms(2), of "[c]"] by (simp add: dot_start_def cj)
  then have "ws_greedy (Suc 0) (CHR '' '' # c # j @ CHR '']'' # rest) = Some (i, rest')"
    by simp
  then show ?thesis
    unfolding include_match_at_def s option.case t by simp
qed


lemma include_scan_plain:
  "no_line_term l \<Longrightarrow>
   include_scan False (l @ rest) = (case include_scan False rest of (caps, cl) \<Rightarrow> (caps, l @ cl))"
proof (induction l)
  case Nil
  then show ?case by simp
next
  case (Cons c l)
  then have "\<not> is_line_term c" and "no_line_term l"
    by (simp_all add: no_line_term_def)
  with Cons.IH show ?case
    by (simp add: include_scan.simps split: prod.splits)
qed

lemma include_scan_newline:
  "include_scan b (NL # rst) = (case include_scan True rst of (caps, cl) \<Rightarrow> (caps, NL # cl))"
proof -
  have "include_match_at (NL # rst) = None"
    by (rule include_match_not_bracket) simp
  then show ?thesis
    by (simp add: include_scan.simps split: prod.splits)
qed

lemma include_scan_start:
  assumes "l \<noteq> []" and "no_line_term l" and "include_match_at (l @ rest) = None"
  shows "include_scan True (l @ rest) = (case include_scan False rest of (caps, cl) \<Rightarrow> (caps, l @ cl))"
proof -
  obtain c l' where l: "l = c # l'" using assms(1) by (cases l) auto
  with assms(2) have nc: "\<not> is_line_term c" and nl: "no_line_term l'"
    by (simp_all add: no_line_term_def)
  have "include_scan True (c # l' @ rest) =
        (case include_scan False (l' @ rest) of (caps, cl) \<Rightarrow> (caps, c # cl))"
    using assms(3) nc by (simp add: l include_scan.simps split: prod.splits)
  then show ?thesis
    by (simp add: l include_scan_plain [OF nl] split: prod.splits)
qed

lemma include_scan_match:
  assumes "include_match_at (c # cs) = Some (cap, rest)"
  shows "include_scan True (c # cs) =
         (case include_scan (is_line_term (last (take (length (c # cs) - length rest) (c # cs)))) rest of
            (caps, cl) \<Rightarrow> (cap # caps, cl))"
  using assms by (simp add: include_scan.simps Let_def split: prod.splits)

lemma include_tail_Nil: "include_tail [] = Some []"
  by (simp add: include_tail_def at_eol_def)

lemma include_tail_one:
  assumes "rst \<noteq> []" and "\<not> is_space (hd rst)"
  shows "include_tail (NL # rst) = Some (NL # rst)"
proof -
  obtain c m where m: "rst = c # m" using assms(1) by (cases rst) auto
  with assms(2) have c: "\<not> is_space c" by simp
  then have "\<not> is_line_term c" using line_term_is_space by blast
  with c show ?thesis
    by (simp add: include_tail_def m at_eol_def)
qed

lemma include_tail_two:
  assumes "rst \<noteq> []" and "\<not> is_space (hd rst)"
  shows "include_tail (NL # NL # rst) = Some (NL # rst)"
proof -
  obtain c m where m: "rst = c # m" using assms(1) by (cases rst) auto
  with assms(2) have c: "\<not> is_space c" by simp
  then have "\<not> is_line_term c" using line_term_is_space by blast
  with c show ?thesis
    by (simp add: include_tail_def m at_eol_def)
qed

lemma inc_line_Cons: "inc_line i = CHR ''['' # ''include '' @ i @ '']''"
  by (simp add: inc_line_def)

lemma include_scan_inc_end:
  assumes "safe_include i"
  shows "include_scan True (inc_line i) = ([i], [])"
proof -
  have "include_match_at (inc_line i @ []) = Some (i, [])"
    using assms include_tail_Nil by (rule include_match_inc)
  then have "include_match_at (CHR ''['' # ''include '' @ i @ '']'') = Some (i, [])"
    by (simp add: inc_line_Cons)
  from include_scan_match [OF this] show ?thesis
    by (simp add: inc_line_Cons include_scan.simps)
qed

lemma include_scan_inc_one:
  assumes "safe_include i" and "rst \<noteq> []" and "\<not> is_space (hd rst)"
  shows "include_scan True (inc_line i @ NL # rst) =
         (case include_scan True rst of (caps, cl) \<Rightarrow> (i # caps, NL # cl))"
proof -
  have "include_match_at (inc_line i @ NL # rst) = Some (i, NL # rst)"
    using assms(1) include_tail_one [OF assms(2,3)] by (rule include_match_inc)
  then have "include_match_at (CHR ''['' # ''include '' @ i @ '']'' @ NL # rst) = Some (i, NL # rst)"
    by (simp add: inc_line_Cons)
  from include_scan_match [OF this] show ?thesis
    by (simp add: inc_line_Cons include_scan_newline split: prod.splits)
qed

lemma include_scan_inc_two:
  assumes "safe_include i" and "rst \<noteq> []" and "\<not> is_space (hd rst)"
  shows "include_scan True (inc_line i @ NL # NL # rst) =
         (case include_scan True rst of (caps, cl) \<Rightarrow> (i # caps, NL # cl))"
proof -
  have "include_match_at (inc_line i @ NL # NL # rst) = Some (i, NL # rst)"
    using assms(1) include_tail_two [OF assms(2,3)] by (rule include_match_inc)
  then have "include_match_at (CHR ''['' # ''include '' @ i @ '']'' @ NL # NL # rst) = Some (i, NL # rst)"
    by (simp add: inc_line_Cons)
  from include_scan_match [OF this] show ?thesis
    by (simp add: inc_line_Cons include_scan_newline split: prod.splits)
qed


definition join_nl :: "string list \<Rightarrow> string" where
  "join_nl ls = js_join [NL] ls"

definition unl :: "string list \<Rightarrow> string" where
  "unl ls = concat (map (\<lambda>l. l @ [NL]) ls)"

lemma join_nl_simps [simp]:
  "join_nl [] = []"
  "join_nl [x] = x"
  "join_nl (x # y # ys) = x @ NL # join_nl (y # ys)"
  by (simp_all add: join_nl_def)

lemma unl_simps [simp]:
  "unl [] = []"
  "unl (x # xs) = x @ NL # unl xs"
  "unl (xs @ ys) = unl xs @ unl ys"
  by (simp_all add: unl_def)

lemma unl_join_nl: "ls \<noteq> [] \<Longrightarrow> unl ls = join_nl ls @ [NL]"
  by (induction ls rule: induct_list012) simp_all

lemma join_nl_Cons: "ls \<noteq> [] \<Longrightarrow> join_nl (l # ls) = l @ NL # join_nl ls"
  by (cases ls) simp_all

lemma include_scan_quiet:
  assumes "\<And>l. l \<in> set ls \<Longrightarrow> no_line_term l"
    and "\<And>l r. l \<in> set ls \<Longrightarrow> l \<noteq> [] \<Longrightarrow> include_match_at (l @ r) = None"
  shows "include_scan True (join_nl ls) = ([], join_nl ls)"
  using assms
proof (induction ls rule: induct_list012)
  case 1
  then show ?case by (simp add: include_scan.simps)
next
  case (2 x)
  show ?case
  proof (cases "x = []")
    case True
    then show ?thesis by (simp add: include_scan.simps)
  next
    case False
    have n: "no_line_term x" using "2.prems"(1) by simp
    have m: "include_match_at (x @ []) = None" using "2.prems"(2) [of x "[]"] False by simp
    from include_scan_start [OF False n m] show ?thesis by (simp add: include_scan.simps)
  qed
next
  case (3 x y zs)
  have ih: "include_scan True (join_nl (y # zs)) = ([], join_nl (y # zs))"
    by (rule "3.IH"(2)) (use "3.prems" in simp_all)
  show ?case
  proof (cases "x = []")
    case True
    then show ?thesis by (simp add: include_scan_newline ih)
  next
    case False
    have n: "no_line_term x" using "3.prems"(1) by simp
    have m: "include_match_at (x @ NL # join_nl (y # zs)) = None"
      using "3.prems"(2) [of x "NL # join_nl (y # zs)"] False by simp
    from include_scan_start [OF False n m] show ?thesis
      by (simp only: join_nl_simps include_scan_newline ih prod.case)
  qed
qed

lemma include_scan_incs_doc:
  assumes "list_all safe_include incs" and "incs \<noteq> []"
    and "rst \<noteq> []" and "\<not> is_space (hd rst)" and "include_scan True rst = ([], rst)"
  shows "include_scan True (unl (map inc_line incs) @ NL # rst)
         = (incs, replicate (length incs) NL @ rst)"
  using assms(1,2)
proof (induction incs rule: induct_list012)
  case 1
  then show ?case by simp
next
  case (2 i)
  then have "safe_include i" by simp
  from include_scan_inc_two [OF this assms(3,4)] show ?case
    by (simp add: assms(5))
next
  case (3 i i' js)
  then have i: "safe_include i" and r: "list_all safe_include (i' # js)" by simp_all
  let ?m = "unl (map inc_line (i' # js)) @ NL # rst"
  have ih: "include_scan True ?m = (i' # js, replicate (length (i' # js)) NL @ rst)"
    by (rule "3.IH"(2) [OF r]) simp
  have "?m \<noteq> []" "\<not> is_space (hd ?m)" by (simp_all add: inc_line_Cons)
  from include_scan_inc_one [OF i this]
  have "include_scan True (inc_line i @ NL # ?m) = (i # i' # js, NL # replicate (length (i' # js)) NL @ rst)"
    by (simp only: ih prod.case)
  moreover have "unl (map inc_line (i # i' # js)) @ NL # rst = inc_line i @ NL # ?m" by simp
  ultimately show ?case by simp
qed

lemma include_scan_incs_only:
  assumes "list_all safe_include incs" and "incs \<noteq> []"
  shows "include_scan True (join_nl (map inc_line incs))
         = (incs, replicate (length incs - 1) NL)"
  using assms
proof (induction incs rule: induct_list012)
  case 1
  then show ?case by simp
next
  case (2 i)
  then show ?case by (simp add: include_scan_inc_end)
next
  case (3 i i' js)
  then have i: "safe_include i" and r: "list_all safe_include (i' # js)" by simp_all
  let ?m = "join_nl (map inc_line (i' # js))"
  have ih: "include_scan True ?m = (i' # js, replicate (length (i' # js) - 1) NL)"
    by (rule "3.IH"(2) [OF r]) simp
  have "?m \<noteq> []" "\<not> is_space (hd ?m)"
    by (cases js; simp add: inc_line_Cons)+
  from include_scan_inc_one [OF i this]
  have "include_scan True (inc_line i @ NL # ?m) = (i # i' # js, NL # replicate (length (i' # js) - 1) NL)"
    by (simp only: ih prod.case)
  moreover have "join_nl (map inc_line (i # i' # js)) = inc_line i @ NL # ?m" by simp
  ultimately show ?case by simp
qed

lemma no_line_term_NL: "no_line_term l \<Longrightarrow> NL \<notin> set l"
  by (auto simp: no_line_term_def list_ex_iff)

lemma js_split_line: "NL \<notin> set l \<Longrightarrow> js_split NL (l @ NL # s) = l # js_split NL s"
  by (induction l) auto

lemma js_split_last: "NL \<notin> set l \<Longrightarrow> js_split NL l = [l]"
  by (induction l) auto

lemma js_split_join_nl:
  "ls \<noteq> [] \<Longrightarrow> (\<And>l. l \<in> set ls \<Longrightarrow> NL \<notin> set l) \<Longrightarrow> js_split NL (join_nl ls) = ls"
proof (induction ls rule: induct_list012)
  case 1
  then show ?case by simp
next
  case (2 x)
  then show ?case by (simp add: js_split_last)
next
  case (3 x y zs)
  have "js_split NL (join_nl (y # zs)) = y # zs"
    by (rule "3.IH"(2)) (use "3.prems" in simp_all)
  moreover have "NL \<notin> set x" using "3.prems"(2) by simp
  ultimately show ?case by (simp add: js_split_line)
qed

lemma js_split_replicate: "js_split NL (replicate m NL @ s) = replicate m [] @ js_split NL s"
  by (induction m) simp_all

definition scan_plain :: "string \<Rightarrow> bool" where
  "scan_plain l = (\<not> comment_test l \<and> js_trim l \<noteq> [] \<and> continuation_strip l = None)"

lemma js_trim_Nil [simp]: "js_trim [] = []"
  by (simp add: js_trim_def)

lemma logical_lines_plain:
  "(\<And>l. l \<in> set ls \<Longrightarrow> l = [] \<or> scan_plain l) \<Longrightarrow>
   map snd (logical_lines k ls) = filter (\<lambda>l. l \<noteq> []) ls"
proof (induction ls arbitrary: k rule: induct_list012)
  case 1
  then show ?case by simp
next
  case (2 x)
  then have "x = [] \<or> scan_plain x" by simp
  then show ?case by (auto simp: scan_plain_def)
next
  case (3 x y zs)
  have ih: "\<And>k. map snd (logical_lines k (y # zs)) = filter (\<lambda>l. l \<noteq> []) (y # zs)"
    by (rule "3.IH"(2)) (use "3.prems" in simp_all)
  from "3.prems" have "x = [] \<or> scan_plain x" by simp
  then show ?case
  proof
    assume "x = []"
    then show ?thesis using ih [of "Suc k"] by simp
  next
    assume "scan_plain x"
    then have "\<not> comment_test x" "js_trim x \<noteq> []" "continuation_strip x = None" "x \<noteq> []"
      by (auto simp: scan_plain_def)
    then show ?thesis using ih [of "Suc k"] by simp
  qed
qed

text \<open>
  Two lines have the same effect on the document when they are the same header or
  store the same under the same key.
\<close>

definition same_effect :: "string \<Rightarrow> string \<Rightarrow> bool" where
  "same_effect l l' \<longleftrightarrow> section_match l = section_match l' \<and> (\<forall>d. store_kv d l = store_kv d l')"

lemma same_effect_refl: "same_effect l l"
  by (simp add: same_effect_def)

lemma run_lines_equiv:
  "list_all2 same_effect (map snd ls) (map snd ls') \<Longrightarrow>
   cfg st = cfg st' \<Longrightarrow> currentSection st = currentSection st' \<Longrightarrow>
   currentSectionData st = currentSectionData st' \<Longrightarrow>
   cfg (run_lines v st ls) = cfg (run_lines v' st' ls')
   \<and> currentSection (run_lines v st ls) = currentSection (run_lines v' st' ls')
   \<and> currentSectionData (run_lines v st ls) = currentSectionData (run_lines v' st' ls')"
proof (induction ls arbitrary: ls' st st')
  case Nil
  then show ?case by simp
next
  case (Cons p ls)
  obtain m l where p: "p = (m, l)" by (cases p)
  from Cons.prems(1) obtain m' l' r where ls': "ls' = (m', l') # r"
    and e: "same_effect l l'" and r: "list_all2 same_effect (map snd ls) (map snd r)"
    by (cases ls') (auto simp: p)
  from e have sm: "section_match l = section_match l'"
    and sk: "\<And>d. store_kv d l = store_kv d l'"
    by (simp_all add: same_effect_def)
  have "cfg (process_line v m st l) = cfg (process_line v' m' st' l')"
    using Cons.prems(2-4) sm by (simp add: cfg_process_line cfg_commit split: option.splits)
  moreover have "currentSection (process_line v m st l) = currentSection (process_line v' m' st' l')"
    using Cons.prems(2-4) sm by (simp add: currentSection_process_line split: option.splits)
  moreover have "currentSectionData (process_line v m st l) = currentSectionData (process_line v' m' st' l')"
    using Cons.prems(2-4) sm sk by (simp add: currentSectionData_process_line split: option.splits)
  ultimately show ?case
    unfolding p ls' run_lines_Cons by (rule Cons.IH [OF r])
qed

definition safe_entry :: "(rat \<Rightarrow> string) \<Rightarrow> string \<times> jsvalue \<Rightarrow> bool" where
  "safe_entry ns e = (safe_key (fst e) \<and> safe_value ns (snd e))"

definition safe_section :: "(rat \<Rightarrow> string) \<Rightarrow> string \<times> ConfigSection \<Rightarrow> bool" where
  "safe_section ns s =
     (safe_name (fst s) \<and> js_ordered (map fst (snd s)) \<and> list_all (safe_entry ns) (snd s))"

definition safe_document :: "(rat \<Rightarrow> string) \<Rightarrow> KlipperConfig \<Rightarrow> bool" where
  "safe_document ns doc = (js_ordered (map fst doc) \<and> list_all (safe_section ns) doc)"

definition section_lines :: "(rat \<Rightarrow> string) \<Rightarrow> string \<times> ConfigSection \<Rightarrow> string list" where
  "section_lines ns s = header_line (fst s) # map (entry_line ns) (snd s)"

text \<open>A key that comes last in the enumeration order is appended by the assignment.\<close>

lemma insert_index_append:
  "\<forall>p\<in>set obj. is_array_index (fst p) \<and> digits_value 10 (fst p) < digits_value 10 k \<Longrightarrow>
   insert_index k v obj = obj @ [(k, v)]"
  by (induction obj) auto

lemma js_ordered_prefix: "js_ordered (xs @ ys) \<Longrightarrow> js_ordered xs"
  by (simp add: js_ordered_def sorted_wrt_append)

lemma js_set_append:
  assumes "js_ordered (map fst obj @ [k])"
  shows "js_set obj k v = obj @ [(k, v)]"
proof -
  from assms have b: "\<forall>a\<in>set (map fst obj). key_before a k" and p: "k \<noteq> ''__proto__''"
    by (auto simp: js_ordered_def sorted_wrt_append)
  then have "k \<notin> set (map fst obj)" by (auto simp: key_before_def)
  then have n: "map_of obj k = None" by (simp add: map_of_eq_None_iff)
  show ?thesis
  proof (cases "is_array_index k")
    case True
    with b have "\<forall>p\<in>set obj. is_array_index (fst p) \<and> digits_value 10 (fst p) < digits_value 10 k"
      by (auto simp: key_before_def)
    from insert_index_append [OF this] True n p show ?thesis by (simp add: js_set_def)
  next
    case False
    with n p show ?thesis by (simp add: js_set_def)
  qed
qed

lemma store_kv_entry:
  assumes "safe_entry ns e" and "js_ordered (map fst d @ [fst e])"
  shows "store_kv d (entry_line ns e) = d @ [e]"
proof -
  obtain k x where e: "e = (k, x)" by (cases e)
  from assms(1) have k: "safe_key k" and x: "safe_value ns x"
    by (simp_all add: safe_entry_def e)
  from entry_form_facts(2) [OF k entry_form_line [OF x]] assms(2) show ?thesis
    by (simp add: e js_set_append)
qed

lemma foldl_store_kv_entries:
  "list_all (safe_entry ns) sec \<Longrightarrow> js_ordered (map fst d @ map fst sec) \<Longrightarrow>
   foldl store_kv d (map (entry_line ns) sec) = d @ sec"
proof (induction sec arbitrary: d)
  case Nil
  then show ?case by simp
next
  case (Cons e sec)
  from Cons.prems(1) have e: "safe_entry ns e" and r: "list_all (safe_entry ns) sec" by simp_all
  have "map fst d @ map fst (e # sec) = (map fst d @ [fst e]) @ map fst sec" by simp
  with Cons.prems(2) have o: "js_ordered ((map fst d @ [fst e]) @ map fst sec)" by simp
  from js_ordered_prefix [OF o] have o1: "js_ordered (map fst d @ [fst e])" .
  from o have "js_ordered (map fst (d @ [e]) @ map fst sec)" by simp
  from Cons.IH [OF r this] show ?case
    by (simp add: store_kv_entry [OF e o1])
qed

lemma run_section:
  assumes "safe_section ns s"
  shows "cfg (run_lines v st (map (Pair 0) (section_lines ns s))) = cfg (commit st)"
    and "currentSection (run_lines v st (map (Pair 0) (section_lines ns s))) = Some (fst s)"
    and "currentSectionData (run_lines v st (map (Pair 0) (section_lines ns s))) = snd s"
proof -
  obtain n sec where s: "s = (n, sec)" by (cases s)
  from assms have n: "safe_name n" and d: "js_ordered (map fst sec)" and e: "list_all (safe_entry ns) sec"
    by (simp_all add: safe_section_def s)
  from n have nn: "n \<noteq> []" "js_trim n = n" by (simp_all add: safe_name_def)
  define st1 where "st1 = process_line v 0 st (header_line n)"
  have c1: "cfg st1 = cfg (commit st)" and s1: "currentSection st1 = Some n"
    and d1: "currentSectionData st1 = []"
    using header_line_facts(1) [OF n] nn
    by (simp_all add: st1_def cfg_process_line currentSection_process_line
        currentSectionData_process_line)
  from s1 nn have o1: "open_section (currentSection st1) = Some n"
    by (simp add: open_section_def)
  have nh: "list_all (\<lambda>l. section_match l = None) (map snd (map (Pair 0) (map (entry_line ns) sec)))"
    using e
  proof (induction sec)
    case Nil
    then show ?case by simp
  next
    case (Cons a sec)
    obtain k x where a: "a = (k, x)" by (cases a)
    from Cons.prems have "safe_key k" "safe_value ns x" by (simp_all add: safe_entry_def a)
    from entry_form_facts(1) [OF this(1) entry_form_line [OF this(2)]] Cons show ?case
      by (simp add: a)
  qed
  note b = run_lines_body [OF o1 nh, of v]
  have f: "foldl store_kv [] (map (entry_line ns) sec) = [] @ sec"
    by (rule foldl_store_kv_entries [OF e]) (simp add: d)
  have r: "run_lines v st (map (Pair 0) (section_lines ns (n, sec)))
           = run_lines v st1 (map (Pair 0) (map (entry_line ns) sec))"
    by (simp add: section_lines_def st1_def)
  show "cfg (run_lines v st (map (Pair 0) (section_lines ns s))) = cfg (commit st)"
    unfolding s r using b c1 by simp
  show "currentSection (run_lines v st (map (Pair 0) (section_lines ns s))) = Some (fst s)"
    unfolding s r using b s1 by simp
  show "currentSectionData (run_lines v st (map (Pair 0) (section_lines ns s))) = snd s"
    unfolding s r using b d1 f by (simp add: comp_def)
qed

lemma run_sections:
  "list_all (safe_section ns) doc \<Longrightarrow>
   js_ordered (map fst (cfg (commit st)) @ map fst doc) \<Longrightarrow>
   cfg (commit (run_lines v st (map (Pair 0) (concat (map (section_lines ns) doc)))))
     = cfg (commit st) @ doc"
proof (induction doc arbitrary: st)
  case Nil
  then show ?case by simp
next
  case (Cons s doc)
  from Cons.prems(1) have s: "safe_section ns s" and rest: "list_all (safe_section ns) doc"
    by simp_all
  have "map fst (cfg (commit st)) @ map fst (s # doc)
        = (map fst (cfg (commit st)) @ [fst s]) @ map fst doc" by simp
  with Cons.prems(2) have o: "js_ordered ((map fst (cfg (commit st)) @ [fst s]) @ map fst doc)"
    by simp
  from js_ordered_prefix [OF o] have o1: "js_ordered (map fst (cfg (commit st)) @ [fst s])" .
  define st1 where "st1 = run_lines v st (map (Pair 0) (section_lines ns s))"
  note r = run_section [OF s, of v st, folded st1_def]
  from s have n: "safe_name (fst s)" by (simp add: safe_section_def)
  then have nn: "fst s \<noteq> []" by (simp add: safe_name_def)
  have op: "open_section (currentSection st1) = Some (fst s)"
    using r(2) nn by (simp add: open_section_def)
  have c: "cfg (commit st1) = cfg (commit st) @ [s]"
    using op r(1,3) js_set_append [OF o1, of "snd s"] by (simp add: cfg_commit)
  from o have "js_ordered (map fst (cfg (commit st1)) @ map fst doc)" by (simp add: c)
  from Cons.IH [OF rest this]
  show ?case
    by (simp add: run_lines_append st1_def [symmetric] c)
qed

definition doc_lines :: "(rat \<Rightarrow> string) \<Rightarrow> KlipperConfig \<Rightarrow> string list" where
  "doc_lines ns doc = concat (map (\<lambda>s. section_lines ns s @ [[]]) doc)"

lemma unl_concat: "unl (concat xss) = concat (map unl xss)"
  by (induction xss) simp_all

lemma format_section_unl: "format_section ns = (\<lambda>s. unl (section_lines ns s @ [[]]))"
proof
  fix s
  have "concat (map (format_entry ns) sec) = unl (map (entry_line ns) sec)" for sec
    by (induction sec) (simp_all add: format_entry_line)
  then show "format_section ns s = unl (section_lines ns s @ [[]])"
    by (cases s) (simp add: format_section_def section_lines_def header_line_def)
qed

lemma formatConfig_unl:
  "formatConfig ns doc incs =
     js_trim (unl (map inc_line incs @ (if incs \<noteq> [] then [[]] else []) @ doc_lines ns doc))"
proof -
  have a: "concat (map (\<lambda>i. ''[include '' @ i @ '']'' @ [NL]) incs) = unl (map inc_line incs)"
    by (induction incs) (simp_all add: inc_line_def)
  have b: "concat (map (format_section ns) doc) = unl (doc_lines ns doc)"
    by (simp add: doc_lines_def unl_concat comp_def format_section_unl)
  show ?thesis
    unfolding formatConfig_def a b by simp
qed

lemma js_trim_append_ws:
  assumes "a \<noteq> []" and "\<not> is_space (hd a)" and "\<not> is_space (last a)" and "list_all is_space w"
  shows "js_trim (a @ w) = a"
proof -
  from assms(1,2) have d: "dropWhile is_space (a @ w) = a @ w" by (cases a) simp_all
  have "dropWhile is_space (rev w @ rev a) = dropWhile is_space (rev a)"
    by (rule dropWhile_append2) (use assms(4) in \<open>simp add: list_all_iff\<close>)
  also have "\<dots> = rev a"
    using js_trim_ends [OF assms(1-3)] d assms(1,3)
    by (cases "rev a") (simp_all add: hd_rev)
  finally show ?thesis by (simp add: js_trim_def d)
qed

lemma join_nl_eq_Nil: "join_nl ls = [] \<longleftrightarrow> ls = [] \<or> ls = [[]]"
  by (induction ls rule: induct_list012) simp_all

lemma hd_join_nl: "ls \<noteq> [] \<Longrightarrow> hd ls \<noteq> [] \<Longrightarrow> hd (join_nl ls) = hd (hd ls)"
  by (induction ls rule: induct_list012) simp_all

lemma last_join_nl: "ls \<noteq> [] \<Longrightarrow> last ls \<noteq> [] \<Longrightarrow> last (join_nl ls) = last (last ls)"
proof (induction ls rule: induct_list012)
  case 1
  then show ?case by simp
next
  case (2 x)
  then show ?case by simp
next
  case (3 x y zs)
  from "3.prems" have l: "last (y # zs) \<noteq> []" by simp
  then have "join_nl (y # zs) \<noteq> []" by (auto simp: join_nl_eq_Nil)
  moreover have "last (join_nl (y # zs)) = last (last (y # zs))"
    by (rule "3.IH"(2)) (use l in simp_all)
  ultimately show ?case by simp
qed

lemma join_nl_not_Nil: "ls \<noteq> [] \<Longrightarrow> hd ls \<noteq> [] \<Longrightarrow> join_nl ls \<noteq> []"
  by (auto simp: join_nl_eq_Nil)

lemma trim_unl:
  assumes "ls \<noteq> []" and "hd ls \<noteq> []" and "\<not> is_space (hd (hd ls))"
    and "last ls \<noteq> []" and "\<not> is_space (last (last ls))"
  shows "js_trim (unl (ls @ [[]])) = join_nl ls"
proof -
  have "unl (ls @ [[]]) = join_nl ls @ [NL, NL]"
    using assms(1) by (simp add: unl_join_nl)
  moreover have "js_trim (join_nl ls @ [NL, NL]) = join_nl ls"
    by (rule js_trim_append_ws)
       (simp_all add: join_nl_not_Nil hd_join_nl last_join_nl assms)
  ultimately show ?thesis by simp
qed

lemma join_nl_append:
  "xs \<noteq> [] \<Longrightarrow> ys \<noteq> [] \<Longrightarrow> join_nl (xs @ ys) = unl xs @ join_nl ys"
  by (induction xs rule: induct_list012) (simp_all add: join_nl_Cons)

lemma filter_doc_lines:
  assumes "list_all (safe_section ns) doc"
  shows "filter (\<lambda>l. l \<noteq> []) (doc_lines ns doc) = concat (map (section_lines ns) doc)"
  using assms
proof (induction doc)
  case Nil
  then show ?case by (simp add: doc_lines_def)
next
  case (Cons s doc)
  obtain n sec where s: "s = (n, sec)" by (cases s)
  from Cons.prems have n: "safe_name n" and e: "list_all (safe_entry ns) sec"
    by (simp_all add: safe_section_def s)
  have "filter (\<lambda>l. l \<noteq> []) (map (entry_line ns) sec) = map (entry_line ns) sec"
    using e
    by (induction sec) (auto simp: entry_line_def)
  then have "filter (\<lambda>l. l \<noteq> []) (section_lines ns s) = section_lines ns s"
    using header_line_facts(6) [OF n] by (simp add: section_lines_def s)
  moreover have "doc_lines ns (s # doc) = section_lines ns s @ [[]] @ doc_lines ns doc"
    by (simp add: doc_lines_def)
  moreover have "filter (\<lambda>l. l \<noteq> []) (doc_lines ns doc) = concat (map (section_lines ns) doc)"
    using Cons by simp
  ultimately show ?case by simp
qed

lemma doc_lines_shape:
  assumes "doc \<noteq> []" and "list_all (safe_section ns) doc"
  obtains D' where "doc_lines ns doc = D' @ [[]]" and "D' \<noteq> []" and "hd D' \<noteq> []"
    and "last D' \<noteq> []" and "set D' \<subseteq> set (doc_lines ns doc)"
    and "filter (\<lambda>l. l \<noteq> []) D' = concat (map (section_lines ns) doc)"
proof -
  define D' where "D' = doc_lines ns (butlast doc) @ section_lines ns (last doc)"
  have d: "doc = butlast doc @ [last doc]" using assms(1) by simp
  have "doc_lines ns doc = doc_lines ns (butlast doc @ [last doc])" using d by simp
  also have "\<dots> = D' @ [[]]" by (simp add: doc_lines_def D'_def)
  finally have 1: "doc_lines ns doc = D' @ [[]]" .
  have 2: "D' \<noteq> []" by (simp add: D'_def section_lines_def)
  obtain s0 rest where sr: "doc = s0 # rest" using assms(1) by (cases doc) auto
  then have "safe_name (fst s0)" using assms(2) by (simp add: safe_section_def)
  then have h0: "header_line (fst s0) \<noteq> []" by (rule header_line_facts(6))
  have "doc_lines ns doc = header_line (fst s0) # (map (entry_line ns) (snd s0) @ [[]] @ doc_lines ns rest)"
    by (simp add: sr doc_lines_def section_lines_def)
  with 1 2 have "hd D' = header_line (fst s0)"
    by (cases D') auto
  with h0 have 3: "hd D' \<noteq> []" by simp
  have sl: "section_lines ns (last doc) \<noteq> []" by (simp add: section_lines_def)
  have "last D' = last (section_lines ns (last doc))"
    unfolding D'_def using sl by simp
  moreover have "last (section_lines ns (last doc)) \<in> set (filter (\<lambda>l. l \<noteq> []) (doc_lines ns doc))"
  proof -
    have "last (section_lines ns (last doc)) \<in> set (section_lines ns (last doc))"
      using sl by (rule last_in_set)
    moreover have "last doc \<in> set doc" using assms(1) by simp
    ultimately show ?thesis
      unfolding filter_doc_lines [OF assms(2)] by auto
  qed
  ultimately have 4: "last D' \<noteq> []" by simp
  have 5: "set D' \<subseteq> set (doc_lines ns doc)" unfolding 1 by auto
  have 6: "filter (\<lambda>l. l \<noteq> []) D' = concat (map (section_lines ns) doc)"
    using filter_doc_lines [OF assms(2)] unfolding 1 by simp
  from 1 2 3 4 5 6 show thesis by (rule that)
qed

lemma includes_kept:
  "list_all safe_include incs \<Longrightarrow> filter (\<lambda>i. i \<noteq> []) (map js_trim incs) = incs"
  by (induction incs) (simp_all add: safe_include_def)

text \<open>The lines of a written document: blank, a header, or an entry.\<close>

definition doc_line :: "string \<Rightarrow> bool" where
  "doc_line l \<longleftrightarrow>
     l = [] \<or> (\<exists>n. l = header_line n \<and> safe_name n) \<or> (\<exists>k x. safe_key k \<and> entry_form k x l)"

lemma doc_line_cases:
  assumes "list_all (safe_section ns) doc" and "l \<in> set (doc_lines ns doc)"
  shows "doc_line l"
proof -
  from assms(2) obtain s where s: "s \<in> set doc" and l: "l \<in> set (section_lines ns s @ [[]])"
    unfolding doc_lines_def set_concat set_map by blast
  from assms(1) s have ss: "safe_section ns s" by (simp add: list_all_iff)
  obtain n sec where ns: "s = (n, sec)" by (cases s)
  from ss have n: "safe_name n" and e: "list_all (safe_entry ns) sec"
    by (simp_all add: safe_section_def ns)
  from l consider "l = []" | "l = header_line n" | "l \<in> entry_line ns ` set sec"
    by (auto simp: section_lines_def ns)
  then show ?thesis
  proof cases
    case 1
    then show ?thesis by (simp add: doc_line_def)
  next
    case 2
    with n show ?thesis unfolding doc_line_def by blast
  next
    case 3
    then obtain k x where "(k, x) \<in> set sec" and lk: "l = entry_line ns (k, x)" by auto
    with e have "safe_key k" "safe_value ns x"
      by (auto simp: list_all_iff safe_entry_def)
    from this(1) entry_form_line [OF this(2), of k] show ?thesis
      unfolding doc_line_def lk by blast
  qed
qed

lemma doc_line_facts:
  assumes "doc_line l"
  shows "no_line_term l" and "l = [] \<or> scan_plain l"
    and "l \<noteq> [] \<Longrightarrow> include_match_at (l @ r) = None"
    and "l \<noteq> [] \<Longrightarrow> \<not> is_space (hd l)"
    and "doc_line (rstrip l)" and "same_effect (rstrip l) l"
    and "l \<noteq> [] \<Longrightarrow> rstrip l \<noteq> []"
proof -
  from assms consider "l = []" | n where "l = header_line n" "safe_name n"
    | k x where "safe_key k" "entry_form k x l"
    unfolding doc_line_def by blast
  then have "no_line_term l \<and> (l = [] \<or> scan_plain l)
      \<and> (l \<noteq> [] \<longrightarrow> include_match_at (l @ r) = None)
      \<and> (l \<noteq> [] \<longrightarrow> \<not> is_space (hd l))
      \<and> doc_line (rstrip l) \<and> same_effect (rstrip l) l \<and> (l \<noteq> [] \<longrightarrow> rstrip l \<noteq> [])"
  proof cases
    case 1
    then show ?thesis by (simp add: no_line_term_def doc_line_def same_effect_def)
  next
    case 2
    note h = header_line_facts [OF 2(2)]
    from h(2,3,4) have "scan_plain l" by (simp add: scan_plain_def 2(1))
    moreover have "include_match_at (l @ r) = None"
      unfolding 2(1) by (rule include_match_header [OF 2(2)])
    ultimately show ?thesis
      using h(5,6,7,8) assms by (simp add: 2(1) same_effect_def)
  next
    case 3
    note f = entry_form_facts [OF 3]
    note g = entry_form_facts [OF 3(1) entry_form_rstrip [OF 3(2)]]
    from f(3,4,5) have "scan_plain l" by (simp add: scan_plain_def)
    moreover have "include_match_at (l @ r) = None"
      using f(7,8) by (intro include_match_not_bracket) simp
    moreover have "doc_line (rstrip l)"
      unfolding doc_line_def using 3(1) entry_form_rstrip [OF 3(2)] by blast
    moreover have "same_effect (rstrip l) l"
      by (simp add: same_effect_def f(1,2) g(1,2))
    ultimately show ?thesis using f(6,9) g(7) by simp
  qed
  then show "no_line_term l" and "l = [] \<or> scan_plain l"
    and "l \<noteq> [] \<Longrightarrow> include_match_at (l @ r) = None"
    and "l \<noteq> [] \<Longrightarrow> \<not> is_space (hd l)"
    and "doc_line (rstrip l)" and "same_effect (rstrip l) l"
    and "l \<noteq> [] \<Longrightarrow> rstrip l \<noteq> []"
    by blast+
qed

lemma join_nl_snoc: "join_nl (xs @ [y]) = unl xs @ y"
  by (induction xs) (simp_all add: join_nl_Cons)

text \<open>
  The final trimming of the written text removes the blank line at the end and the
  white space at the end of the last line.
\<close>

lemma trim_unl_rstrip:
  assumes "ls \<noteq> []" and "hd ls \<noteq> []" and "\<not> is_space (hd (hd ls))" and "rstrip (last ls) \<noteq> []"
  shows "js_trim (unl (ls @ [[]])) = join_nl (butlast ls @ [rstrip (last ls)])"
proof -
  have ls: "ls = butlast ls @ [last ls]" using assms(1) by simp
  have "unl (ls @ [[]]) = join_nl ls @ [NL, NL]"
    using assms(1) by (simp add: unl_join_nl)
  also have "join_nl ls = unl (butlast ls) @ last ls"
    using join_nl_snoc [of "butlast ls" "last ls"] ls by simp
  finally have u: "unl (ls @ [[]]) = unl (butlast ls) @ (last ls @ [NL, NL])" by simp
  have "rstrip (last ls @ [NL, NL]) = rstrip (last ls)"
    by (rule rstrip_spaces) simp
  with assms(4) have "rstrip (last ls @ [NL, NL]) \<noteq> []" by simp
  from rstrip_append [OF this, of "unl (butlast ls)"] \<open>rstrip (last ls @ [NL, NL]) = rstrip (last ls)\<close>
  have r: "rstrip (unl (butlast ls) @ (last ls @ [NL, NL])) = unl (butlast ls) @ rstrip (last ls)"
    by (simp only:)
  have "\<not> is_space (hd (unl (ls @ [[]])))"
    using assms(1-3) by (cases ls) simp_all
  then have "unl (ls @ [[]]) = [] \<or> \<not> is_space (hd (unl (ls @ [[]])))" ..
  then have j: "js_trim (unl (ls @ [[]])) = rstrip (unl (ls @ [[]]))"
    by (rule js_trim_no_lead)
  have k: "rstrip (unl (ls @ [[]])) = unl (butlast ls) @ rstrip (last ls)"
    by (subst u) (rule r)
  have "join_nl (butlast ls @ [rstrip (last ls)]) = unl (butlast ls) @ rstrip (last ls)"
    by (rule join_nl_snoc)
  with j k show ?thesis by (simp only:)
qed

lemma extract_formatted:
  assumes "list_all (safe_section ns) doc" and "list_all safe_include incs"
  shows "\<exists>cleaned. extractIncludes (formatConfig ns doc incs) = (cleaned, incs)
           \<and> list_all2 same_effect (filter (\<lambda>l. l \<noteq> []) (js_split NL cleaned))
                (concat (map (section_lines ns) doc))
           \<and> (\<forall>l\<in>set (js_split NL cleaned). l = [] \<or> scan_plain l)"
proof (cases "doc = []")
  case True
  show ?thesis
  proof (cases "incs = []")
    case True
    with \<open>doc = []\<close> have "formatConfig ns doc incs = []"
      by (simp add: formatConfig_unl doc_lines_def)
    then show ?thesis
      using True \<open>doc = []\<close> by (simp add: extractIncludes_def include_scan.simps)
  next
    case False
    let ?IL = "map inc_line incs"
    have "formatConfig ns doc incs = js_trim (unl (?IL @ [[]]))"
      using False \<open>doc = []\<close> by (simp add: formatConfig_unl doc_lines_def)
    also have "\<dots> = join_nl ?IL"
      by (rule trim_unl) (use False in \<open>simp_all add: hd_map last_map inc_line_def\<close>)
    finally have f: "formatConfig ns doc incs = join_nl ?IL" .
    have "extractIncludes (join_nl ?IL) = (replicate (length incs - 1) NL, incs)"
      by (simp add: extractIncludes_def include_scan_incs_only [OF assms(2) False]
          includes_kept [OF assms(2)])
    moreover have "js_split NL (replicate (length incs - 1) NL @ []) = replicate (length incs - 1) [] @ [[]]"
      by (simp only: js_split_replicate js_split.simps)
    ultimately show ?thesis
      unfolding f using \<open>doc = []\<close> by simp
  qed
next
  case False
  from doc_lines_shape [OF False assms(1)] obtain D0 where
    D: "doc_lines ns doc = D0 @ [[]]" and ne0: "D0 \<noteq> []" and hd0: "hd D0 \<noteq> []"
    and la0: "last D0 \<noteq> []" and sub: "set D0 \<subseteq> set (doc_lines ns doc)"
    and fl0: "filter (\<lambda>l. l \<noteq> []) D0 = concat (map (section_lines ns) doc)"
    by blast
  have dl0: "\<And>l. l \<in> set D0 \<Longrightarrow> doc_line l"
    using doc_line_cases [OF assms(1)] sub by blast
  define D' where "D' = butlast D0 @ [rstrip (last D0)]"
  have lastD: "doc_line (last D0)" using dl0 ne0 by simp
  have rl: "rstrip (last D0) \<noteq> []" using doc_line_facts(7) [OF lastD la0] .
  have dl: "\<And>l. l \<in> set D' \<Longrightarrow> doc_line l"
    using dl0 doc_line_facts(5) [OF lastD] by (auto simp: D'_def dest: in_set_butlastD)
  have ne: "D' \<noteq> []" by (simp add: D'_def)
  have la: "last D' \<noteq> []" using rl by (simp add: D'_def)
  have hd: "hd D' \<noteq> []"
  proof (cases "butlast D0 = []")
    case True
    with rl show ?thesis by (simp add: D'_def)
  next
    case False
    then have "hd (butlast D0) = hd D0" by (cases D0) (auto split: if_splits)
    with False hd0 show ?thesis by (simp add: D'_def)
  qed
  have lf: "\<And>l. l \<in> set D' \<Longrightarrow> no_line_term l"
    "\<And>l. l \<in> set D' \<Longrightarrow> l = [] \<or> scan_plain l"
    "\<And>l r. l \<in> set D' \<Longrightarrow> l \<noteq> [] \<Longrightarrow> include_match_at (l @ r) = None"
    "\<And>l. l \<in> set D' \<Longrightarrow> l \<noteq> [] \<Longrightarrow> \<not> is_space (hd l)"
    using doc_line_facts(1-4) dl by blast+
  have hdD0: "\<not> is_space (hd (hd D0))" using doc_line_facts(4) [OF dl0 hd0] ne0 by simp
  have hdD: "\<not> is_space (hd (hd D'))" using lf(4) [of "hd D'"] ne hd by simp
  have fl: "list_all2 same_effect (filter (\<lambda>l. l \<noteq> []) D') (concat (map (section_lines ns) doc))"
  proof -
    define B where "B = filter (\<lambda>l. l \<noteq> []) (butlast D0)"
    have "filter (\<lambda>l. l \<noteq> []) (butlast D0 @ [last D0]) = B @ [last D0]"
      using la0 by (simp add: B_def)
    then have a: "filter (\<lambda>l. l \<noteq> []) D0 = B @ [last D0]"
      by (simp only: append_butlast_last_id [OF ne0])
    have b: "filter (\<lambda>l. l \<noteq> []) D' = B @ [rstrip (last D0)]"
      using rl by (simp add: D'_def B_def)
    have c: "list_all2 same_effect B B"
      by (rule list_all2_refl) (rule same_effect_refl)
    have d: "list_all2 same_effect [rstrip (last D0)] [last D0]"
      using doc_line_facts(6) [OF lastD] by simp
    show ?thesis
      unfolding fl0 [symmetric] a b by (rule list_all2_appendI [OF c d])
  qed
  have q: "include_scan True (join_nl D') = ([], join_nl D')"
    by (rule include_scan_quiet) (use lf in blast)+
  have sp: "js_split NL (join_nl D') = D'"
    by (rule js_split_join_nl [OF ne]) (use lf(1) no_line_term_NL in blast)
  show ?thesis
  proof (cases "incs = []")
    case True
    have "formatConfig ns doc incs = js_trim (unl (D0 @ [[]]))"
      using True by (simp add: formatConfig_unl D)
    also have "\<dots> = join_nl D'"
      unfolding D'_def by (rule trim_unl_rstrip [OF ne0 hd0 hdD0 rl])
    finally have f: "formatConfig ns doc incs = join_nl D'" .
    have e: "extractIncludes (join_nl D') = (join_nl D', incs)"
      using True by (simp add: extractIncludes_def q)
    show ?thesis
      unfolding f
    proof (intro exI conjI)
      show "extractIncludes (join_nl D') = (join_nl D', incs)" by (rule e)
      show "list_all2 same_effect (filter (\<lambda>l. l \<noteq> []) (js_split NL (join_nl D')))
              (concat (map (section_lines ns) doc))"
        unfolding sp by (rule fl)
      show "\<forall>l\<in>set (js_split NL (join_nl D')). l = [] \<or> scan_plain l"
        unfolding sp using lf(2) by blast
    qed
  next
    case ni: False
    let ?IL = "map inc_line incs"
    let ?LL = "?IL @ [] # D0"
    have bl: "butlast ?LL @ [rstrip (last ?LL)] = ?IL @ [] # D'"
      using ne0 by (simp add: D'_def butlast_append)
    have "formatConfig ns doc incs = js_trim (unl (?LL @ [[]]))"
      using ni by (simp add: formatConfig_unl D)
    also have "\<dots> = join_nl (butlast ?LL @ [rstrip (last ?LL)])"
    proof (rule trim_unl_rstrip)
      show "?LL \<noteq> []" by simp
      show "hd ?LL \<noteq> []" using ni by (simp add: hd_append hd_map inc_line_def)
      show "\<not> is_space (hd (hd ?LL))" using ni by (simp add: hd_append hd_map inc_line_def)
      show "rstrip (last ?LL) \<noteq> []" using ne0 rl by simp
    qed
    also have "\<dots> = join_nl (?IL @ [] # D')" by (simp only: bl)
    also have "\<dots> = unl ?IL @ join_nl ([] # D')"
      by (rule join_nl_append) (use ni in simp_all)
    also have "\<dots> = unl ?IL @ NL # join_nl D'"
      using ne by (simp add: join_nl_Cons)
    finally have f: "formatConfig ns doc incs = unl ?IL @ NL # join_nl D'" .
    have r1: "join_nl D' \<noteq> []" using ne hd by (rule join_nl_not_Nil)
    have r2: "\<not> is_space (hd (join_nl D'))" using hdD by (simp add: hd_join_nl [OF ne hd])
    from include_scan_incs_doc [OF assms(2) ni r1 r2 q]
    have e: "extractIncludes (unl ?IL @ NL # join_nl D') = (replicate (length incs) NL @ join_nl D', incs)"
      by (simp add: extractIncludes_def includes_kept [OF assms(2)])
    have s2: "js_split NL (replicate (length incs) NL @ join_nl D') = replicate (length incs) [] @ D'"
      by (simp only: js_split_replicate sp)
    have s3: "filter (\<lambda>l. l \<noteq> []) (replicate (length incs) [] @ D') = filter (\<lambda>l. l \<noteq> []) D'"
      by simp
    show ?thesis
      unfolding f
    proof (intro exI conjI)
      show "extractIncludes (unl ?IL @ NL # join_nl D') = (replicate (length incs) NL @ join_nl D', incs)"
        by (rule e)
      show "list_all2 same_effect
              (filter (\<lambda>l. l \<noteq> []) (js_split NL (replicate (length incs) NL @ join_nl D')))
              (concat (map (section_lines ns) doc))"
        unfolding s2 s3 by (rule fl)
      show "\<forall>l\<in>set (js_split NL (replicate (length incs) NL @ join_nl D')). l = [] \<or> scan_plain l"
        unfolding s2 using lf(2) by auto
    qed
  qed
qed

lemma includes_parseConfig: "includes (parseConfig content v) = snd (extractIncludes content)"
  by (cases "extractIncludes content")
     (simp add: parseConfig_def parseKlipperConfig_def Let_def)

lemma parse_formatted:
  assumes "safe_document ns doc" and "list_all safe_include incs"
  shows "config (parseConfig (formatConfig ns doc incs) v) = doc"
    and "includes (parseConfig (formatConfig ns doc incs) v) = incs"
proof -
  from assms(1) have sec: "list_all (safe_section ns) doc" and ord: "js_ordered (map fst doc)"
    by (simp_all add: safe_document_def)
  from extract_formatted [OF sec assms(2)] obtain cleaned where
    ex: "extractIncludes (formatConfig ns doc incs) = (cleaned, incs)"
    and fl: "list_all2 same_effect (filter (\<lambda>l. l \<noteq> []) (js_split NL cleaned))
               (concat (map (section_lines ns) doc))"
    and pl: "\<forall>l\<in>set (js_split NL cleaned). l = [] \<or> scan_plain l"
    by blast
  show "includes (parseConfig (formatConfig ns doc incs) v) = incs"
    by (simp add: includes_parseConfig ex)
  let ?init = "\<lparr>cfg = [], currentSection = None, currentSectionData = [], errs = []\<rparr>"
  let ?L = "logical_lines 0 (js_split NL cleaned)"
  let ?C = "map (Pair 0) (concat (map (section_lines ns) doc))"
  have "map snd ?L = filter (\<lambda>l. l \<noteq> []) (js_split NL cleaned)"
    by (rule logical_lines_plain) (use pl in blast)
  with fl have "list_all2 same_effect (map snd ?L) (map snd ?C)" by (simp add: comp_def)
  from run_lines_equiv [OF this, of ?init ?init v v]
  have "cfg (commit (run_lines v ?init ?L)) = cfg (commit (run_lines v ?init ?C))"
    by (simp add: cfg_commit split: option.splits)
  also have "\<dots> = cfg (commit ?init) @ doc"
    by (rule run_sections [OF sec]) (simp add: commit_def open_section_def ord)
  also have "\<dots> = doc" by (simp add: commit_def open_section_def)
  finally show "config (parseConfig (formatConfig ns doc incs) v) = doc"
    by (simp add: config_parseConfig ex)
qed

text \<open>
  What holds of every document and include list that the parser returns: names are not
  empty, trimmed and without \<open>]\<close>; keys are not empty, trimmed and without a
  separator; every value is inferred from a trimmed text on one line; the keys of the
  document and of every section stand in enumeration order; include paths are not
  empty, trimmed and on one line.
\<close>

definition parsed_value :: "jsvalue \<Rightarrow> bool" where
  "parsed_value x \<longleftrightarrow> (\<exists>t. js_trim t = t \<and> no_line_term t \<and> x = parseValue t)"

definition parsed_key :: "string \<Rightarrow> bool" where
  "parsed_key k = (k \<noteq> [] \<and> js_trim k = k \<and> \<not> list_ex is_sep k)"

definition parsed_name :: "string \<Rightarrow> bool" where
  "parsed_name n = (n \<noteq> [] \<and> js_trim n = n \<and> CHR '']'' \<notin> set n)"

definition parsed_data :: "ConfigSection \<Rightarrow> bool" where
  "parsed_data sec \<longleftrightarrow>
     js_ordered (map fst sec) \<and> (\<forall>e\<in>set sec. parsed_key (fst e) \<and> parsed_value (snd e))"

definition parsed_doc :: "KlipperConfig \<Rightarrow> bool" where
  "parsed_doc doc \<longleftrightarrow>
     js_ordered (map fst doc) \<and> (\<forall>s\<in>set doc. parsed_name (fst s) \<and> parsed_data (snd s))"

lemma set_insert_key: "set (insert_key k ks) = insert k (set ks)"
  by (induction ks) auto

lemma sorted_insert_key:
  assumes "is_array_index k" and "k \<notin> set ks" and "sorted_wrt key_before ks"
  shows "sorted_wrt key_before (insert_key k ks)"
  using assms(2,3)
proof (induction ks)
  case Nil
  then show ?case by simp
next
  case (Cons k' ks)
  from Cons.prems have ne: "k \<noteq> k'" and nk: "k \<notin> set ks"
    and b: "\<forall>x\<in>set ks. key_before k' x" and s: "sorted_wrt key_before ks"
    by simp_all
  show ?case
  proof (cases "is_array_index k' \<and> digits_value 10 k' < digits_value 10 k")
    case True
    have "key_before k' k" using True ne assms(1) by (simp add: key_before_def)
    with b have "\<forall>x\<in>set (insert_key k ks). key_before k' x" by (simp add: set_insert_key)
    with Cons.IH [OF nk s] True show ?thesis by simp
  next
    case False
    have lt: "digits_value 10 k < digits_value 10 k'" if "is_array_index k'"
    proof -
      from that False have "digits_value 10 k \<le> digits_value 10 k'" by simp
      moreover have "digits_value 10 k \<noteq> digits_value 10 k'"
        using array_index_inj [OF assms(1) that] ne by blast
      ultimately show ?thesis by simp
    qed
    then have 1: "key_before k k'" using ne assms(1) by (auto simp: key_before_def)
    have 2: "key_before k x" if "x \<in> set ks" for x
    proof -
      from that nk have "k \<noteq> x" by auto
      moreover have "is_array_index k \<and> digits_value 10 k < digits_value 10 x" if i: "is_array_index x"
      proof -
        from b \<open>x \<in> set ks\<close> i have "is_array_index k'" "digits_value 10 k' < digits_value 10 x"
          by (auto simp: key_before_def)
        with lt assms(1) show ?thesis by simp
      qed
      ultimately show ?thesis by (auto simp: key_before_def)
    qed
    from 1 2 Cons.prems(2) False show ?thesis by auto
  qed
qed

lemma js_ordered_add_key:
  assumes "js_ordered ks"
  shows "js_ordered (add_key ks k)"
proof -
  from assms have s: "sorted_wrt key_before ks" and p: "''__proto__'' \<notin> set ks"
    by (simp_all add: js_ordered_def)
  consider "k = ''__proto__'' \<or> k \<in> set ks"
    | "k \<noteq> ''__proto__''" "k \<notin> set ks" "is_array_index k"
    | "k \<noteq> ''__proto__''" "k \<notin> set ks" "\<not> is_array_index k"
    by blast
  then show ?thesis
  proof cases
    case 1
    then show ?thesis using assms by (auto simp: add_key_def)
  next
    case 2
    from sorted_insert_key [OF 2(3,2) s] 2 p show ?thesis
      by (simp add: add_key_def js_ordered_def set_insert_key)
  next
    case 3
    then have "\<forall>x\<in>set ks. key_before x k" by (auto simp: key_before_def)
    with 3 s p show ?thesis
      by (simp add: add_key_def js_ordered_def sorted_wrt_append)
  qed
qed

lemma set_insert_index: "set (insert_index k v obj) = insert (k, v) (set obj)"
  by (induction obj) (auto split: if_splits)

lemma set_update_subset: "set (AList.update k v obj) \<subseteq> insert (k, v) (set obj)"
  by (induction obj) auto

lemma set_js_set: "set (js_set obj k v) \<subseteq> insert (k, v) (set obj)"
  using set_update_subset [of k v obj]
  by (auto simp: js_set_def set_insert_index)

lemma parsed_data_js_set:
  assumes "parsed_data d" and "parsed_key k" and "parsed_value x"
  shows "parsed_data (js_set d k x)"
proof -
  from assms(1) have "js_ordered (map fst d)" by (simp add: parsed_data_def)
  then have "js_ordered (map fst (js_set d k x))"
    unfolding keys_js_set_all by (rule js_ordered_add_key)
  moreover have "parsed_key (fst e) \<and> parsed_value (snd e)" if "e \<in> set (js_set d k x)" for e
    using that set_js_set [of d k x] assms by (auto simp: parsed_data_def)
  ultimately show ?thesis by (simp add: parsed_data_def)
qed

lemma parsed_doc_js_set:
  assumes "parsed_doc c" and "parsed_name n" and "parsed_data d"
  shows "parsed_doc (js_set c n d)"
proof -
  from assms(1) have "js_ordered (map fst c)" by (simp add: parsed_doc_def)
  then have "js_ordered (map fst (js_set c n d))"
    unfolding keys_js_set_all by (rule js_ordered_add_key)
  moreover have "parsed_name (fst s) \<and> parsed_data (snd s)" if "s \<in> set (js_set c n d)" for s
    using that set_js_set [of c n d] assms by (auto simp: parsed_doc_def)
  ultimately show ?thesis by (simp add: parsed_doc_def)
qed

lemma parsed_data_store_kv:
  assumes "parsed_data d"
  shows "parsed_data (store_kv d l)"
proof (cases "kv_match l")
  case None
  with assms show ?thesis by (simp add: store_kv_def)
next
  case (Some p)
  obtain k0 v where p: "p = (k0, v)" by (cases p)
  show ?thesis
  proof (cases "js_trim k0 = []")
    case True
    with assms Some p show ?thesis by (simp add: store_kv_def)
  next
    case False
    from Some p have k0: "k0 = takeWhile (\<lambda>c. \<not> is_sep c) l"
      and v: "\<not> list_ex is_line_term v"
      by (auto simp: kv_match_def Let_def split: if_splits)
    have "\<forall>c\<in>set k0. \<not> is_sep c" unfolding k0 by (auto dest: set_takeWhileD)
    with set_js_trim [of k0] have "\<not> list_ex is_sep (js_trim k0)"
      by (auto simp: list_ex_iff)
    with False have pk: "parsed_key (js_trim k0)" by (simp add: parsed_key_def js_trim_idem)
    from v set_js_trim [of v] have "no_line_term (js_trim v)"
      by (auto simp: no_line_term_def list_ex_iff)
    then have pv: "parsed_value (parseValue (js_trim v))"
      unfolding parsed_value_def using js_trim_idem [of v] by blast
    from parsed_data_js_set [OF assms pk pv] Some p False show ?thesis
      by (simp add: store_kv_def)
  qed
qed

definition parsed_state :: "scan_state \<Rightarrow> bool" where
  "parsed_state st \<longleftrightarrow>
     parsed_doc (cfg st) \<and> parsed_data (currentSectionData st)
     \<and> (\<forall>n. open_section (currentSection st) = Some n \<longrightarrow> parsed_name n)"

lemma parsed_commit:
  assumes "parsed_state st"
  shows "parsed_doc (cfg (commit st))"
  using assms
  by (cases "open_section (currentSection st)")
     (simp_all add: cfg_commit parsed_state_def parsed_doc_js_set)

lemma parsed_process_line:
  assumes "parsed_state st"
  shows "parsed_state (process_line v m st l)"
proof (cases "section_match l")
  case None
  have "parsed_data (case open_section (currentSection st) of
                       None \<Rightarrow> currentSectionData st
                     | Some cur \<Rightarrow> store_kv (currentSectionData st) l)"
    using assms by (simp add: parsed_state_def parsed_data_store_kv split: option.splits)
  with assms None show ?thesis
    by (simp add: parsed_state_def cfg_process_line currentSection_process_line
        currentSectionData_process_line)
next
  case (Some nm)
  from Some obtain b r where l: "l = b # r" and nm: "nm = takeWhile (\<lambda>c. c \<noteq> CHR '']'') r"
    by (cases l) (auto simp: section_match_def Let_def split: if_splits)
  have "CHR '']'' \<notin> set nm" unfolding nm by (auto dest: set_takeWhileD)
  with set_js_trim [of nm] have "CHR '']'' \<notin> set (js_trim nm)" by auto
  then have n: "js_trim nm \<noteq> [] \<Longrightarrow> parsed_name (js_trim nm)"
    by (simp add: parsed_name_def js_trim_idem)
  have d: "parsed_data []" by (simp add: parsed_data_def js_ordered_def)
  from parsed_commit [OF assms] Some n d show ?thesis
    by (auto simp: parsed_state_def cfg_process_line currentSection_process_line
        currentSectionData_process_line open_section_def split: if_splits)
qed

lemma parsed_run_lines: "parsed_state st \<Longrightarrow> parsed_state (run_lines v st ls)"
proof (induction ls arbitrary: st)
  case Nil
  then show ?case by simp
next
  case (Cons p ls)
  obtain m l where p: "p = (m, l)" by (cases p)
  from Cons.IH [OF parsed_process_line [OF Cons.prems, of v m l]] show ?case
    by (simp add: p)
qed

lemma parsed_parseConfig: "parsed_doc (config (parseConfig content v))"
proof -
  have "parsed_state \<lparr>cfg = [], currentSection = None, currentSectionData = [], errs = []\<rparr>"
    by (simp add: parsed_state_def parsed_doc_def parsed_data_def js_ordered_def open_section_def)
  from parsed_commit [OF parsed_run_lines [OF this]] show ?thesis
    by (simp add: config_parseConfig)
qed

text \<open>The capture of an include line holds no line terminator.\<close>

lemma dot_lazy_capture:
  "dot_lazy acc s = Some (cap, r) \<Longrightarrow> no_line_term acc \<Longrightarrow> no_line_term cap"
proof (induction s arbitrary: acc)
  case Nil
  then show ?case by simp
next
  case (Cons c cs)
  show ?case
  proof (cases "if c = CHR '']'' then include_tail cs else None")
    case (Some r')
    with Cons.prems show ?thesis by simp
  next
    case None
    with Cons.prems(1) have nl: "\<not> is_line_term c" and d: "dot_lazy (acc @ [c]) cs = Some (cap, r)"
      by (auto split: if_splits)
    from nl Cons.prems(2) have "no_line_term (acc @ [c])" by (simp add: no_line_term_def)
    from Cons.IH [OF d this] show ?thesis .
  qed
qed

lemma dot_start_capture: "dot_start s = Some (cap, r) \<Longrightarrow> no_line_term cap"
  unfolding dot_start_def
  by (cases s) (auto split: if_splits dest!: dot_lazy_capture simp: no_line_term_def)

lemma ws_greedy_capture: "ws_greedy j s = Some (cap, r) \<Longrightarrow> no_line_term cap"
proof (induction j)
  case 0
  then show ?case by simp
next
  case (Suc j)
  show ?case
  proof (cases "dot_start (drop (Suc j) s)")
    case None
    with Suc show ?thesis by simp
  next
    case (Some p)
    with Suc.prems have "dot_start (drop (Suc j) s) = Some (cap, r)" by simp
    then show ?thesis by (rule dot_start_capture)
  qed
qed

lemma include_match_capture: "include_match_at s = Some (cap, r) \<Longrightarrow> no_line_term cap"
  unfolding include_match_at_def
  by (auto split: option.splits dest: ws_greedy_capture)

lemma include_scan_captures:
  "include_scan bol s = (caps, cl) \<Longrightarrow> \<forall>c\<in>set caps. no_line_term c"
proof (induction bol s arbitrary: caps cl rule: include_scan.induct)
  case (1 bol)
  then show ?case by (simp add: include_scan.simps)
next
  case (2 bol c cs)
  show ?case
  proof (cases "if bol then include_match_at (c # cs) else None")
    case None
    obtain caps' cl' where r: "include_scan (is_line_term c) cs = (caps', cl')"
      by (cases "include_scan (is_line_term c) cs")
    from "2.prems" None r have "caps = caps'" by (simp add: include_scan.simps)
    with "2.IH"(1) [OF None r] show ?thesis by simp
  next
    case (Some p)
    obtain cap rest where p: "p = (cap, rest)" by (cases p)
    define matched where "matched = take (length (c # cs) - length rest) (c # cs)"
    obtain caps' cl' where r: "include_scan (is_line_term (last matched)) rest = (caps', cl')"
      by (cases "include_scan (is_line_term (last matched)) rest")
    from "2.prems" Some p r have c: "caps = cap # caps'"
      by (simp add: include_scan.simps matched_def Let_def)
    from Some p have "include_match_at (c # cs) = Some (cap, rest)" by (auto split: if_splits)
    then have "no_line_term cap" by (rule include_match_capture)
    moreover have "\<forall>c\<in>set caps'. no_line_term c"
      by (rule "2.IH"(2) [OF Some p [symmetric] matched_def r])
    ultimately show ?thesis by (simp add: c)
  qed
qed

lemma includes_safe: "list_all safe_include (includes (parseConfig content v))"
proof -
  obtain caps cl where s: "include_scan True content = (caps, cl)"
    by (cases "include_scan True content")
  from include_scan_captures [OF s] have n: "\<forall>c\<in>set caps. no_line_term c" .
  have "safe_include i" if "i \<in> set (filter (\<lambda>i. i \<noteq> []) (map js_trim caps))" for i
  proof -
    from that obtain c where c: "c \<in> set caps" and i: "i = js_trim c" and ne: "i \<noteq> []" by auto
    from n c set_js_trim [of c] have "no_line_term i"
      by (auto simp: i no_line_term_def list_ex_iff)
    with ne show ?thesis by (simp add: safe_include_def i js_trim_idem)
  qed
  then show ?thesis
    by (simp add: includes_parseConfig extractIncludes_def s list_all_iff)
qed

text \<open>
  What serialization needs of a parsed document beyond that. A section name holds no
  line terminator and is not \<open>include\<close> followed by white space; a key holds no line
  terminator and does not begin with \<open>[\<close> or \<open>#\<close>; every number, alone or in a list,
  is written by \<open>numberToString\<close> as a trimmed text on one line that inference reads
  back as the same number; the text of a value, the last one for a list, does not end
  in a backslash.
\<close>

definition number_read_back :: "(rat \<Rightarrow> string) \<Rightarrow> jsvalue \<Rightarrow> bool" where
  "number_read_back ns x =
     (case x of
        VNum q \<Rightarrow> js_trim (ns q) = ns q \<and> no_line_term (ns q) \<and> parseValue (ns q) = VNum q
      | _ \<Rightarrow> True)"

definition writable_value :: "(rat \<Rightarrow> string) \<Rightarrow> jsvalue \<Rightarrow> bool" where
  "writable_value ns x =
     (case x of
        VList xs \<Rightarrow> list_all (number_read_back ns) xs
                     \<and> no_final_backslash (js_to_string ns (last xs))
      | _ \<Rightarrow> number_read_back ns x \<and> no_final_backslash (js_to_string ns x))"

definition writable_name :: "string \<Rightarrow> bool" where
  "writable_name n = (no_line_term n \<and> \<not> include_like n)"

definition writable_key :: "string \<Rightarrow> bool" where
  "writable_key k = (no_line_term k \<and> hd k \<noteq> CHR ''['' \<and> hd k \<noteq> CHR ''#'')"

definition writable :: "(rat \<Rightarrow> string) \<Rightarrow> KlipperConfig \<Rightarrow> bool" where
  "writable ns doc =
     list_all (\<lambda>s. writable_name (fst s)
                   \<and> list_all (\<lambda>e. writable_key (fst e) \<and> writable_value ns (snd e)) (snd s)) doc"

lemma boolean_inferred_back: "inferred_back ns (VBool b)"
proof -
  have "parseValue ''true'' = VBool True" "parseValue ''false'' = VBool False"
    by (simp_all add: parseValue_unfold boolean_text_def toLowerCase_def lower_char_def)
  then show ?thesis
    by (cases b)
       (simp_all add: inferred_back_def js_trim_def is_space_def no_line_term_def
          is_line_term_def)
qed

lemma scalar_inferred_back:
  assumes "js_trim p = p" and "no_line_term p" and "CHR '','' \<notin> set p"
    and "number_read_back ns (parseValue p)"
  shows "inferred_back ns (parseValue p)"
proof (cases "p = []")
  case True
  then show ?thesis
    by (simp add: parseValue_unfold inferred_back_def js_trim_def no_line_term_def)
next
  case ne: False
  show ?thesis
  proof (cases "boolean_text p")
    case True
    with ne have "parseValue p = VBool (toLowerCase p = ''true'')"
      by (simp add: parseValue_unfold)
    then show ?thesis by (simp add: boolean_inferred_back)
  next
    case nb: False
    show ?thesis
    proof (cases "js_Number p")
      case (Fin q)
      with ne nb have "parseValue p = VNum q" by (simp add: parseValue_unfold)
      with assms(4) show ?thesis by (simp add: inferred_back_def number_read_back_def)
    next
      case NaN
      with ne nb assms(3) have "parseValue p = VStr p" by (simp add: parseValue_unfold)
      with assms(1,2) show ?thesis by (simp add: inferred_back_def)
    next
      case PosInf
      with ne nb assms(3) have "parseValue p = VStr p" by (simp add: parseValue_unfold)
      with assms(1,2) show ?thesis by (simp add: inferred_back_def)
    next
      case NegInf
      with ne nb assms(3) have "parseValue p = VStr p" by (simp add: parseValue_unfold)
      with assms(1,2) show ?thesis by (simp add: inferred_back_def)
    qed
  qed
qed

lemma set_js_split: "y \<in> set (js_split d s) \<Longrightarrow> set y \<subseteq> set s \<and> d \<notin> set y"
proof (induction s arbitrary: y)
  case Nil
  then show ?case by simp
next
  case (Cons c cs)
  show ?case
  proof (cases "c = d")
    case True
    with Cons.prems have "y = [] \<or> y \<in> set (js_split d cs)" by simp
    with Cons.IH show ?thesis by auto
  next
    case False
    obtain x xs where x: "js_split d cs = x # xs"
      using js_split_not_Nil [of d cs] by (cases "js_split d cs") auto
    with Cons.prems False have "y = c # x \<or> y \<in> set xs" by simp
    moreover have "set x \<subseteq> set cs \<and> d \<notin> set x" using Cons.IH [of x] x by simp
    moreover have "y \<in> set xs \<Longrightarrow> set y \<subseteq> set cs \<and> d \<notin> set y" using Cons.IH [of y] x by simp
    ultimately show ?thesis using False by auto
  qed
qed

lemma js_split_two: "d \<in> set s \<Longrightarrow> 2 \<le> length (js_split d s)"
proof (induction s)
  case Nil
  then show ?case by simp
next
  case (Cons c cs)
  show ?case
  proof (cases "c = d")
    case True
    then show ?thesis using js_split_not_Nil [of d cs]
      by (cases "js_split d cs") auto
  next
    case False
    with Cons.prems have "d \<in> set cs" by simp
    from Cons.IH [OF this] False show ?thesis
      by (cases "js_split d cs") auto
  qed
qed

lemma parsed_safe_value:
  assumes "parsed_value x" and "writable_value ns x"
  shows "safe_value ns x"
proof -
  from assms(1) obtain t where t: "js_trim t = t" and nl: "no_line_term t"
    and x: "x = parseValue t"
    by (auto simp: parsed_value_def)
  show ?thesis
  proof (cases "CHR '','' \<in> set t")
    case True
    define ps where "ps = js_split (CHR '','') t"
    define xs where "xs = map (\<lambda>s. parseValue (js_trim s)) ps"
    from parseValue_comma [OF True t] have xl: "x = VList xs"
      by (simp add: x xs_def ps_def)
    from assms(2) have nb: "list_all (number_read_back ns) xs"
      and fb: "no_final_backslash (js_to_string ns (last xs))"
      by (simp_all add: xl writable_value_def)
    have "inferred_back ns (parseValue (js_trim s))" if s: "s \<in> set ps" for s
    proof -
      from set_js_split [OF s [unfolded ps_def]]
      have sub: "set s \<subseteq> set t" and nc: "CHR '','' \<notin> set s" by simp_all
      from sub set_js_trim [of s] nl have 1: "no_line_term (js_trim s)"
        by (auto simp: no_line_term_def list_ex_iff)
      from nc set_js_trim [of s] have 2: "CHR '','' \<notin> set (js_trim s)" by auto
      from nb s have 3: "number_read_back ns (parseValue (js_trim s))"
        by (auto simp: xs_def list_all_iff)
      from scalar_inferred_back [OF js_trim_idem 1 2 3] show ?thesis .
    qed
    then have "list_all (inferred_back ns) xs" by (simp add: xs_def list_all_iff)
    moreover have "2 \<le> length xs" using js_split_two [OF True] by (simp add: xs_def ps_def)
    ultimately show ?thesis using fb by (simp add: xl safe_value_def)
  next
    case False
    then have nlist: "\<And>ys. x \<noteq> VList ys"
      by (cases "js_Number t") (auto simp: x parseValue_unfold split: if_splits)
    from nlist assms(2) have "number_read_back ns x"
      and fb: "no_final_backslash (js_to_string ns x)"
      by (cases x; simp add: writable_value_def)+
    with scalar_inferred_back [OF t nl False] have "inferred_back ns x" by (simp add: x)
    with nlist fb show ?thesis by (cases x) (auto simp: safe_value_def)
  qed
qed

lemma parsed_safe_document:
  assumes "parsed_doc doc" and "writable ns doc"
  shows "safe_document ns doc"
proof -
  have "safe_section ns s" if s: "s \<in> set doc" for s
  proof -
    from assms(1) s have pn: "parsed_name (fst s)" and pd: "parsed_data (snd s)"
      by (auto simp: parsed_doc_def)
    from assms(2) s have wn: "writable_name (fst s)"
      and we: "\<forall>e\<in>set (snd s). writable_key (fst e) \<and> writable_value ns (snd e)"
      by (auto simp: writable_def list_all_iff)
    from pn wn have 1: "safe_name (fst s)"
      by (simp add: safe_name_def parsed_name_def writable_name_def)
    from pd have 2: "js_ordered (map fst (snd s))" by (simp add: parsed_data_def)
    have "safe_entry ns e" if e: "e \<in> set (snd s)" for e
    proof -
      from pd e have "parsed_key (fst e)" "parsed_value (snd e)"
        by (auto simp: parsed_data_def)
      moreover from we e have "writable_key (fst e)" "writable_value ns (snd e)" by auto
      ultimately show ?thesis
        by (simp add: safe_entry_def safe_key_def parsed_key_def writable_key_def
            parsed_safe_value)
    qed
    with 1 2 show ?thesis by (simp add: safe_section_def list_all_iff)
  qed
  moreover from assms(1) have "js_ordered (map fst doc)" by (simp add: parsed_doc_def)
  ultimately show ?thesis by (simp add: safe_document_def list_all_iff)
qed

text \<open>
  Claim C5, as the code has it. Let a document and an include list be produced by
  \<open>parseConfig\<close> from any text, with or without validation. If no section name holds a
  line terminator or is \<open>include\<close> followed by white space, no key holds a line
  terminator or begins with \<open>[\<close> or \<open>#\<close>, every number, alone or in a list, is written
  by \<open>numberToString\<close> as a trimmed text on one line that inference reads back as the
  same number, and the text of no value, the last one for a list, ends in a backslash,
  then parsing what \<open>formatConfig\<close> writes for them, with or without validation, gives
  the same document and the same include list. Empty values, lists with empty pieces
  and section names or keys that are array indices are covered.
\<close>

theorem format_parse_round_trip:
  "writable ns (config (parseConfig content v)) \<longrightarrow>
     config (parseConfig (formatConfig ns (config (parseConfig content v))
                            (includes (parseConfig content v))) v')
       = config (parseConfig content v)
     \<and> includes (parseConfig (formatConfig ns (config (parseConfig content v))
                                (includes (parseConfig content v))) v')
         = includes (parseConfig content v)"
proof
  assume w: "writable ns (config (parseConfig content v))"
  have s: "safe_document ns (config (parseConfig content v))"
    using parsed_parseConfig w by (rule parsed_safe_document)
  from parse_formatted [OF s includes_safe]
  show "config (parseConfig (formatConfig ns (config (parseConfig content v))
                            (includes (parseConfig content v))) v')
       = config (parseConfig content v)
     \<and> includes (parseConfig (formatConfig ns (config (parseConfig content v))
                                (includes (parseConfig content v))) v')
         = includes (parseConfig content v)"
    by simp
qed

theorem format_parse_round_trip_witness:
  "config (parseConfig (''[include fan.cfg]'' @ [NL] @ ''[extruder]'' @ [NL] @ ''max_temp: 250'' @ [NL]
             @ ''gcode:'' @ [NL] @ ''pins: a,,b'' @ [NL] @ ''enabled: TRUE'' @ [NL] @ ''[1]'' @ [NL]
             @ ''heater_pin: PA1'') True)
     = [(''1'', [(''heater_pin'', VStr ''PA1'')]),
        (''extruder'', [(''max_temp'', VNum 250), (''gcode'', VStr []),
                        (''pins'', VList [VStr ''a'', VStr [], VStr ''b'']),
                        (''enabled'', VBool True)])]
   \<and> includes (parseConfig (''[include fan.cfg]'' @ [NL] @ ''[extruder]'' @ [NL] @ ''max_temp: 250'' @ [NL]
             @ ''gcode:'' @ [NL] @ ''pins: a,,b'' @ [NL] @ ''enabled: TRUE'' @ [NL] @ ''[1]'' @ [NL]
             @ ''heater_pin: PA1'') True)
     = [''fan.cfg'']
   \<and> writable (\<lambda>q. show_nat (nat \<lfloor>q\<rfloor>))
        [(''1'', [(''heater_pin'', VStr ''PA1'')]),
         (''extruder'', [(''max_temp'', VNum 250), (''gcode'', VStr []),
                         (''pins'', VList [VStr ''a'', VStr [], VStr ''b'']),
                         (''enabled'', VBool True)])]
   \<and> formatConfig (\<lambda>q. show_nat (nat \<lfloor>q\<rfloor>))
        [(''1'', [(''heater_pin'', VStr ''PA1'')]),
         (''extruder'', [(''max_temp'', VNum 250), (''gcode'', VStr []),
                         (''pins'', VList [VStr ''a'', VStr [], VStr ''b'']),
                         (''enabled'', VBool True)])]
        [''fan.cfg'']
     = ''[include fan.cfg]'' @ [NL] @ [NL] @ ''[1]'' @ [NL] @ ''heater_pin: PA1'' @ [NL] @ [NL]
       @ ''[extruder]'' @ [NL] @ ''max_temp: 250'' @ [NL] @ ''gcode: '' @ [NL]
       @ ''pins: a, , b'' @ [NL] @ ''enabled: true''
   \<and> config (parseConfig (''[include fan.cfg]'' @ [NL] @ [NL] @ ''[1]'' @ [NL] @ ''heater_pin: PA1'' @ [NL] @ [NL]
       @ ''[extruder]'' @ [NL] @ ''max_temp: 250'' @ [NL] @ ''gcode: '' @ [NL]
       @ ''pins: a, , b'' @ [NL] @ ''enabled: true'') False)
     = [(''1'', [(''heater_pin'', VStr ''PA1'')]),
        (''extruder'', [(''max_temp'', VNum 250), (''gcode'', VStr []),
                        (''pins'', VList [VStr ''a'', VStr [], VStr ''b'']),
                        (''enabled'', VBool True)])]
   \<and> includes (parseConfig (''[include fan.cfg]'' @ [NL] @ [NL] @ ''[1]'' @ [NL] @ ''heater_pin: PA1'' @ [NL] @ [NL]
       @ ''[extruder]'' @ [NL] @ ''max_temp: 250'' @ [NL] @ ''gcode: '' @ [NL]
       @ ''pins: a, , b'' @ [NL] @ ''enabled: true'') False)
     = [''fan.cfg'']"
proof -
  let ?C = "''[include fan.cfg]'' @ [NL] @ ''[extruder]'' @ [NL] @ ''max_temp: 250'' @ [NL]
             @ ''gcode:'' @ [NL] @ ''pins: a,,b'' @ [NL] @ ''enabled: TRUE'' @ [NL] @ ''[1]'' @ [NL]
             @ ''heater_pin: PA1''"
  let ?D = "[(''1'', [(''heater_pin'', VStr ''PA1'')]),
        (''extruder'', [(''max_temp'', VNum 250), (''gcode'', VStr []),
                        (''pins'', VList [VStr ''a'', VStr [], VStr ''b'']),
                        (''enabled'', VBool True)])]"
  let ?ns = "\<lambda>q. show_nat (nat \<lfloor>q\<rfloor>)"
  have c: "config (parseConfig ?C True) = ?D" by code_simp
  have i: "includes (parseConfig ?C True) = [''fan.cfg'']"
    unfolding includes_parseConfig by code_simp
  have w: "writable ?ns ?D" by code_simp
  have f: "formatConfig ?ns ?D [''fan.cfg'']
     = ''[include fan.cfg]'' @ [NL] @ [NL] @ ''[1]'' @ [NL] @ ''heater_pin: PA1'' @ [NL] @ [NL]
       @ ''[extruder]'' @ [NL] @ ''max_temp: 250'' @ [NL] @ ''gcode: '' @ [NL]
       @ ''pins: a, , b'' @ [NL] @ ''enabled: true''"
    by code_simp
  from format_parse_round_trip [of ?ns ?C True False] w
  have "config (parseConfig (formatConfig ?ns ?D [''fan.cfg'']) False) = ?D
        \<and> includes (parseConfig (formatConfig ?ns ?D [''fan.cfg'']) False) = [''fan.cfg'']"
    unfolding c i by blast
  then show ?thesis unfolding f using c i w f by blast
qed

text \<open>
  A parsed document that serialization does not give back: a key that begins with
  \<open>[\<close> is written at the start of its line, which is then read as a section header.
\<close>

theorem round_trip_counterexample:
  "config (parseConfig (''[s]'' @ [NL] @ '' [a: ]'') True) = [(''s'', [(''[a'', VStr '']'')])]
   \<and> includes (parseConfig (''[s]'' @ [NL] @ '' [a: ]'') True) = []
   \<and> (\<forall>ns. formatConfig ns [(''s'', [(''[a'', VStr '']'')])] [] = ''[s]'' @ [NL] @ ''[a: ]'')
   \<and> config (parseConfig (''[s]'' @ [NL] @ ''[a: ]'') True) = [(''s'', []), (''a:'', [])]"
proof -
  have 1: "config (parseConfig (''[s]'' @ [NL] @ '' [a: ]'') True) = [(''s'', [(''[a'', VStr '']'')])]"
    by code_simp
  have 2: "includes (parseConfig (''[s]'' @ [NL] @ '' [a: ]'') True) = []"
    by code_simp
  have 3: "formatConfig ns [(''s'', [(''[a'', VStr '']'')])] [] = ''[s]'' @ [NL] @ ''[a: ]''" for ns
    by (simp add: formatConfig_def format_section_def format_entry_def js_trim_def is_space_def)
  have 4: "config (parseConfig (''[s]'' @ [NL] @ ''[a: ]'') True) = [(''s'', []), (''a:'', [])]"
    by code_simp
  from 1 2 3 4 show ?thesis by blast
qed

end
